theory Spec2Isabelle
  imports Main "HOL-Library.Monad_Syntax"
begin


section \<open>Data model of \<open>chess.js\<close>\<close>

text \<open>
  A piece is the object \<open>{ type, color }\<close>. The six type strings and the two colour
  strings that \<open>createBoard\<close> and the promotion in \<open>movePiece\<close> ever write are the
  constructors below; the order of \<open>ptype\<close> is that of the \<open>switch\<close> in \<open>isValidMove\<close>.
  Every square of the board holds an object of its own (\<open>createBoard\<close> allocates one
  literal per square, \<open>movePiece\<close> stores copies in the history), so no two squares
  alias one object and pieces are modelled as values.
\<close>

datatype color = White | Black

datatype ptype = Pawn | Rook | Knight | Bishop | Queen | King

record piece =
  ptype :: ptype
  color :: color

type_synonym square = "piece option"

text \<open>The board is the array of rows \<open>this.board\<close>; \<open>None\<close> is JavaScript's \<open>null\<close>.\<close>

type_synonym board = "square list list"

definition wf_board :: "board \<Rightarrow> bool" where
  "wf_board b = (length b = 8 \<and> list_all (\<lambda>row. length row = 8) b)"

definition inRange :: "int \<Rightarrow> bool" where
  "inRange i = (0 \<le> i \<and> i < 8)"

text \<open>
  Reading \<open>this.board[r][c]\<close>. The only exception this program can raise is the
  TypeError of indexing \<open>undefined\<close> (a row that does not exist) or of reading a
  property of \<open>null\<close>; it is the result \<open>None\<close> of the option type throughout.
  A column outside the row reads as \<open>undefined\<close>, which every use only tests for
  truthiness, so it reads as the empty square.
\<close>

definition sq :: "board \<Rightarrow> int \<Rightarrow> int \<Rightarrow> square option" where
  "sq b r c =
     (if 0 \<le> r \<and> r < int (length b)
      then Some (if 0 \<le> c \<and> c < int (length (b ! nat r)) then b ! nat r ! nat c else None)
      else None)"

text \<open>
  The assignment \<open>this.board[r][c] = v\<close>. Every write of the program comes after a
  successful read of the same row, and the claims are about coordinates in \<open>[0,8)\<close>;
  a write outside the board (which in JavaScript would raise or grow the row) leaves the
  model's board as it is.
\<close>

definition put :: "board \<Rightarrow> int \<Rightarrow> int \<Rightarrow> square \<Rightarrow> board" where
  "put b r c v =
     (if 0 \<le> r \<and> r < int (length b) \<and> 0 \<le> c \<and> c < int (length (b ! nat r))
      then b[nat r := (b ! nat r)[nat c := v]]
      else b)"

definition opposite :: "color \<Rightarrow> color" where
  "opposite col = (if col = White then Black else White)"

text \<open>The row-major enumeration of the two nested \<open>for\<close> loops over \<open>0..7\<close>.\<close>

definition allSquares :: "(int \<times> int) list" where
  "allSquares = concat (map (\<lambda>r. map (\<lambda>c. (r, c)) [0..7]) [0..7])"

subsection \<open>\<open>createBoard\<close>\<close>

definition backRowPieces :: "ptype list" where
  "backRowPieces = [Rook, Knight, Bishop, Queen, King, Bishop, Knight, Rook]"

definition createBoard :: board where
  "createBoard =
     (let board0 = replicate 8 (replicate 8 None);
          board1 = fold (\<lambda>i b. put (put b 1 i (Some \<lparr>ptype = Pawn, color = Black\<rparr>))
                                     6 i (Some \<lparr>ptype = Pawn, color = White\<rparr>)) [0..7] board0
      in fold (\<lambda>i b. put (put b 0 i (Some \<lparr>ptype = backRowPieces ! nat i, color = Black\<rparr>))
                          7 i (Some \<lparr>ptype = backRowPieces ! nat i, color = White\<rparr>)) [0..7] board1)"

subsection \<open>Piece rules\<close>

text \<open>
  The path loops of the rook and the bishop: the squares strictly between origin and
  destination, in the loop's order, with \<open>return false\<close> at the first occupied one.
\<close>

fun pathClear :: "board \<Rightarrow> (int \<times> int) list \<Rightarrow> bool option" where
  "pathClear b [] = Some True"
| "pathClear b ((r, c) # rest) =
     (case sq b r c of
        None \<Rightarrow> None
      | Some (Some p) \<Rightarrow> Some False
      | Some None \<Rightarrow> pathClear b rest)"

definition isValidPawnMove :: "board \<Rightarrow> int \<Rightarrow> int \<Rightarrow> int \<Rightarrow> int \<Rightarrow> bool option" where
  "isValidPawnMove b fromRow fromCol toRow toCol =
     (case sq b fromRow fromCol of
        None \<Rightarrow> None
      | Some None \<Rightarrow> None
      | Some (Some pc) \<Rightarrow>
          (let direction = (if color pc = White then - 1 else 1) in
           do {
             oneStep \<leftarrow>
               (if fromCol = toCol \<and> toRow = fromRow + direction
                then do { t \<leftarrow> sq b toRow toCol; Some (t = None) }
                else Some False);
             if oneStep then Some True
             else
               (let startRow = (if color pc = White then 6 else 1) in
                do {
                  twoStep \<leftarrow>
                    (if fromCol = toCol \<and> fromRow = startRow \<and> toRow = fromRow + 2 * direction
                     then do {
                       mid \<leftarrow> sq b (fromRow + direction) fromCol;
                       if mid \<noteq> None then Some False
                       else do { t \<leftarrow> sq b toRow toCol; Some (t = None) }
                     }
                     else Some False);
                  if twoStep then Some True
                  else
                    (if \<bar>fromCol - toCol\<bar> = 1 \<and> toRow = fromRow + direction
                     then do {
                       t \<leftarrow> sq b toRow toCol;
                       Some (case t of None \<Rightarrow> False | Some tp \<Rightarrow> color tp \<noteq> color pc)
                     }
                     else Some False)
                })
           }))"

definition isValidRookMove :: "board \<Rightarrow> int \<Rightarrow> int \<Rightarrow> int \<Rightarrow> int \<Rightarrow> bool option" where
  "isValidRookMove b fromRow fromCol toRow toCol =
     (if fromRow \<noteq> toRow \<and> fromCol \<noteq> toCol then Some False
      else if fromRow = toRow
      then pathClear b (map (\<lambda>c. (fromRow, c)) [min fromCol toCol + 1 .. max fromCol toCol - 1])
      else pathClear b (map (\<lambda>r. (r, fromCol)) [min fromRow toRow + 1 .. max fromRow toRow - 1]))"

definition isValidKnightMove :: "int \<Rightarrow> int \<Rightarrow> int \<Rightarrow> int \<Rightarrow> bool" where
  "isValidKnightMove fromRow fromCol toRow toCol =
     (let rowDiff = \<bar>fromRow - toRow\<bar>; colDiff = \<bar>fromCol - toCol\<bar>
      in (rowDiff = 2 \<and> colDiff = 1) \<or> (rowDiff = 1 \<and> colDiff = 2))"

definition isValidBishopMove :: "board \<Rightarrow> int \<Rightarrow> int \<Rightarrow> int \<Rightarrow> int \<Rightarrow> bool option" where
  "isValidBishopMove b fromRow fromCol toRow toCol =
     (let rowDiff = \<bar>fromRow - toRow\<bar>; colDiff = \<bar>fromCol - toCol\<bar>
      in if rowDiff \<noteq> colDiff then Some False
         else
           (let rowDirection = (if toRow > fromRow then 1 else - 1);
                colDirection = (if toCol > fromCol then 1 else - 1)
            in pathClear b
                 (map (\<lambda>i. (fromRow + i * rowDirection, fromCol + i * colDirection))
                      [1 .. rowDiff - 1])))"

text \<open>\<open>a || b\<close> evaluates \<open>b\<close> only when \<open>a\<close> is false.\<close>

definition isValidQueenMove :: "board \<Rightarrow> int \<Rightarrow> int \<Rightarrow> int \<Rightarrow> int \<Rightarrow> bool option" where
  "isValidQueenMove b fromRow fromCol toRow toCol =
     do {
       rook \<leftarrow> isValidRookMove b fromRow fromCol toRow toCol;
       if rook then Some True else isValidBishopMove b fromRow fromCol toRow toCol
     }"

definition isValidKingMove :: "int \<Rightarrow> int \<Rightarrow> int \<Rightarrow> int \<Rightarrow> bool" where
  "isValidKingMove fromRow fromCol toRow toCol =
     (let rowDiff = \<bar>fromRow - toRow\<bar>; colDiff = \<bar>fromCol - toCol\<bar>
      in rowDiff \<le> 1 \<and> colDiff \<le> 1)"

subsection \<open>\<open>isValidMove\<close>\<close>

definition isValidMove :: "board \<Rightarrow> int \<Rightarrow> int \<Rightarrow> int \<Rightarrow> int \<Rightarrow> bool option" where
  "isValidMove b fromRow fromCol toRow toCol =
     (case sq b fromRow fromCol of
        None \<Rightarrow> None
      | Some None \<Rightarrow> Some False
      | Some (Some pc) \<Rightarrow>
          (case sq b toRow toCol of
             None \<Rightarrow> None
           | Some targetPiece \<Rightarrow>
               if (case targetPiece of None \<Rightarrow> False | Some tp \<Rightarrow> color tp = color pc)
               then Some False
               else
                 (case ptype pc of
                    Pawn \<Rightarrow> isValidPawnMove b fromRow fromCol toRow toCol
                  | Rook \<Rightarrow> isValidRookMove b fromRow fromCol toRow toCol
                  | Knight \<Rightarrow> Some (isValidKnightMove fromRow fromCol toRow toCol)
                  | Bishop \<Rightarrow> isValidBishopMove b fromRow fromCol toRow toCol
                  | Queen \<Rightarrow> isValidQueenMove b fromRow fromCol toRow toCol
                  | King \<Rightarrow> Some (isValidKingMove fromRow fromCol toRow toCol))))"

subsection \<open>\<open>isKingInCheck\<close>\<close>

text \<open>
  The first pair of loops looks for the king in row-major order and leaves both loops at
  the first hit; \<open>kingRow = kingCol = -1\<close> when there is none. The second pair returns
  \<open>true\<close> at the first opposing piece that \<open>isValidMove\<close> lets reach the king's square.
\<close>

fun findKing :: "board \<Rightarrow> color \<Rightarrow> (int \<times> int) list \<Rightarrow> (int \<times> int) option" where
  "findKing b clr [] = Some (- 1, - 1)"
| "findKing b clr ((row, col) # rest) =
     (case sq b row col of
        None \<Rightarrow> None
      | Some None \<Rightarrow> findKing b clr rest
      | Some (Some pc) \<Rightarrow>
          if ptype pc = King \<and> color pc = clr then Some (row, col) else findKing b clr rest)"

fun attackScan :: "board \<Rightarrow> color \<Rightarrow> int \<Rightarrow> int \<Rightarrow> (int \<times> int) list \<Rightarrow> bool option" where
  "attackScan b opponentColor kingRow kingCol [] = Some False"
| "attackScan b opponentColor kingRow kingCol ((row, col) # rest) =
     (case sq b row col of
        None \<Rightarrow> None
      | Some None \<Rightarrow> attackScan b opponentColor kingRow kingCol rest
      | Some (Some pc) \<Rightarrow>
          if color pc = opponentColor
          then (case isValidMove b row col kingRow kingCol of
                  None \<Rightarrow> None
                | Some v \<Rightarrow>
                    if v then Some True else attackScan b opponentColor kingRow kingCol rest)
          else attackScan b opponentColor kingRow kingCol rest)"

definition isKingInCheck :: "board \<Rightarrow> color \<Rightarrow> bool option" where
  "isKingInCheck b clr =
     (case findKing b clr allSquares of
        None \<Rightarrow> None
      | Some (kingRow, kingCol) \<Rightarrow> attackScan b (opposite clr) kingRow kingCol allSquares)"

subsection \<open>The tentative move\<close>

text \<open>
  The two statements \<open>board[toRow][toCol] = piece; board[fromRow][fromCol] = null\<close>
  that every trial writes, and the two that take it back,
  \<open>board[fromRow][fromCol] = piece; board[toRow][toCol] = originalTarget\<close>.
  The functions below that try moves work on the one board of the game, so they take
  the board and return it with their result: the second component is the board as the
  function leaves it, on return and on a raise alike.
\<close>

definition tryMove :: "board \<Rightarrow> int \<Rightarrow> int \<Rightarrow> int \<Rightarrow> int \<Rightarrow> square \<Rightarrow> board" where
  "tryMove b fr fc tr tc movingPiece = put (put b tr tc movingPiece) fr fc None"

definition undoTry :: "board \<Rightarrow> int \<Rightarrow> int \<Rightarrow> int \<Rightarrow> int \<Rightarrow> square \<Rightarrow> square \<Rightarrow> board" where
  "undoTry b fr fc tr tc movingPiece originalTarget =
     put (put b fr fc movingPiece) tr tc originalTarget"

subsection \<open>\<open>isCheckmate\<close>\<close>

text \<open>
  The loops over the destinations of one piece and over the origins. Their result is
  \<open>Some True\<close> when the \<open>return false\<close> of the source was reached (a move escapes the
  check) and \<open>Some False\<close> when the loop ran to its end.
\<close>

fun isCheckmate_to ::
  "board \<Rightarrow> color \<Rightarrow> int \<Rightarrow> int \<Rightarrow> piece \<Rightarrow> (int \<times> int) list \<Rightarrow> bool option \<times> board" where
  "isCheckmate_to b clr fr fc pc [] = (Some False, b)"
| "isCheckmate_to b clr fr fc pc ((tr, tc) # rest) =
     (case isValidMove b fr fc tr tc of
        None \<Rightarrow> (None, b)
      | Some valid \<Rightarrow>
          if valid
          then (case sq b tr tc of
                  None \<Rightarrow> (None, b)
                | Some originalTarget \<Rightarrow>
                    (let b1 = tryMove b fr fc tr tc (Some pc) in
                     case isKingInCheck b1 clr of
                       None \<Rightarrow> (None, b1)
                     | Some stillInCheck \<Rightarrow>
                         (let b2 = undoTry b1 fr fc tr tc (Some pc) originalTarget in
                          if \<not> stillInCheck then (Some True, b2)
                          else isCheckmate_to b2 clr fr fc pc rest)))
          else isCheckmate_to b clr fr fc pc rest)"

fun isCheckmate_from :: "board \<Rightarrow> color \<Rightarrow> (int \<times> int) list \<Rightarrow> bool option \<times> board" where
  "isCheckmate_from b clr [] = (Some False, b)"
| "isCheckmate_from b clr ((fr, fc) # rest) =
     (case sq b fr fc of
        None \<Rightarrow> (None, b)
      | Some None \<Rightarrow> isCheckmate_from b clr rest
      | Some (Some pc) \<Rightarrow>
          if color pc = clr
          then (case isCheckmate_to b clr fr fc pc allSquares of
                  (None, b') \<Rightarrow> (None, b')
                | (Some escaped, b') \<Rightarrow>
                    if escaped then (Some True, b') else isCheckmate_from b' clr rest)
          else isCheckmate_from b clr rest)"

definition isCheckmate :: "board \<Rightarrow> color \<Rightarrow> bool option \<times> board" where
  "isCheckmate b clr =
     (case isKingInCheck b clr of
        None \<Rightarrow> (None, b)
      | Some inCheck \<Rightarrow>
          if \<not> inCheck then (Some False, b)
          else (case isCheckmate_from b clr allSquares of
                  (None, b') \<Rightarrow> (None, b')
                | (Some escaped, b') \<Rightarrow> (Some (\<not> escaped), b')))"

section \<open>The game: \<open>movePiece\<close> and \<open>undoMove\<close>\<close>

record move =
  fromRow :: int
  fromCol :: int
  toRow :: int
  toCol :: int

text \<open>A history entry: the coordinates with the copies \<open>{ ...piece }\<close> and
  \<open>capturedPiece ? { ...capturedPiece } : null\<close>, both taken before the promotion.\<close>

record moveRecord = move +
  piece :: piece
  capturedPiece :: square

datatype gameMode = Human | Computer

text \<open>The fields of \<open>ChessGame\<close> that the rules read or write; the selection, the
  difficulty and the page are left to the user interface.\<close>

record game =
  board :: board
  currentPlayer :: color
  gameOver :: bool
  moveHistory :: "moveRecord list"
  gameMode :: gameMode

text \<open>
  \<open>movePiece\<close>. Reading either square of a missing row raises before anything is
  written. With an empty origin the source pushes the copy \<open>{ ...null }\<close>, an object
  with neither type nor colour, and raises at \<open>piece.type\<close>: the model raises and
  returns the game as it was, since no \<open>piece\<close> is such an object. The status line,
  the highlighting and the rendering do not touch the fields above.
\<close>

definition movePiece :: "game \<Rightarrow> int \<Rightarrow> int \<Rightarrow> int \<Rightarrow> int \<Rightarrow> unit option \<times> game" where
  "movePiece g fr fc tr tc =
     (case sq (board g) fr fc of
        None \<Rightarrow> (None, g)
      | Some origin \<Rightarrow>
          (case sq (board g) tr tc of
             None \<Rightarrow> (None, g)
           | Some captured \<Rightarrow>
               (case origin of
                  None \<Rightarrow> (None, g)
                | Some pc \<Rightarrow>
                    (let g1 = g\<lparr>moveHistory := moveHistory g @
                                 [\<lparr>fromRow = fr, fromCol = fc, toRow = tr, toCol = tc,
                                   piece = pc, capturedPiece = captured\<rparr>]\<rparr>;
                         promoted = (if ptype pc = Pawn \<and> (tr = 0 \<or> tr = 7)
                                     then pc\<lparr>ptype := Queen\<rparr> else pc);
                         g2 = g1\<lparr>board := put (put (board g1) tr tc (Some promoted)) fr fc None\<rparr>;
                         g3 = g2\<lparr>currentPlayer :=
                                   (if currentPlayer g2 = White then Black else White)\<rparr>
                     in case isKingInCheck (board g3) (currentPlayer g3) of
                          None \<Rightarrow> (None, g3)
                        | Some isCheck \<Rightarrow>
                            (case (if isCheck then isCheckmate (board g3) (currentPlayer g3)
                                   else (Some False, board g3)) of
                               (None, b') \<Rightarrow> (None, g3\<lparr>board := b'\<rparr>)
                             | (Some isMate, b') \<Rightarrow>
                                 (Some (),
                                  g3\<lparr>board := b',
                                     gameOver := (if isMate then True else gameOver g3)\<rparr>))))))"

text \<open>One turn of the loop of \<open>undoMove\<close>: \<open>pop\<close>, the two assignments, the switch
  of the player. The loop leaves at once on an empty history.\<close>

definition undoStep :: "game \<Rightarrow> game" where
  "undoStep g =
     (let lastMove = last (moveHistory g);
          g1 = g\<lparr>moveHistory := butlast (moveHistory g)\<rparr>;
          g2 = g1\<lparr>board := put (board g1) (fromRow lastMove) (fromCol lastMove)
                                 (Some (piece lastMove))\<rparr>;
          g3 = g2\<lparr>board := put (board g2) (toRow lastMove) (toCol lastMove)
                                 (capturedPiece lastMove)\<rparr>
      in g3\<lparr>currentPlayer := (if currentPlayer g3 = White then Black else White)\<rparr>)"

fun undoLoop :: "nat \<Rightarrow> game \<Rightarrow> game" where
  "undoLoop 0 g = g"
| "undoLoop (Suc n) g = (if moveHistory g = [] then g else undoLoop n (undoStep g))"

definition undoMove :: "game \<Rightarrow> game" where
  "undoMove g =
     (if moveHistory g = [] then g
      else (let movesToUndo = (if gameMode g = Computer then 2 else 1)
            in (undoLoop movesToUndo g)\<lparr>gameOver := False\<rparr>))"

section \<open>The computer opponent (\<open>ChessAI\<close>)\<close>

subsection \<open>\<open>getPieceValue\<close> and \<open>getAllLegalMoves\<close>\<close>

definition getPieceValue :: "ptype \<Rightarrow> int" where
  "getPieceValue pieceType =
     (case pieceType of
        Pawn \<Rightarrow> 1 | Knight \<Rightarrow> 3 | Bishop \<Rightarrow> 3 | Rook \<Rightarrow> 5 | Queen \<Rightarrow> 9 | King \<Rightarrow> 100)"

fun getAllLegalMoves_to ::
  "board \<Rightarrow> color \<Rightarrow> int \<Rightarrow> int \<Rightarrow> piece \<Rightarrow> (int \<times> int) list \<Rightarrow> move list
     \<Rightarrow> move list option \<times> board" where
  "getAllLegalMoves_to b clr fr fc pc [] moves = (Some moves, b)"
| "getAllLegalMoves_to b clr fr fc pc ((tr, tc) # rest) moves =
     (case isValidMove b fr fc tr tc of
        None \<Rightarrow> (None, b)
      | Some valid \<Rightarrow>
          if valid
          then (case sq b tr tc of
                  None \<Rightarrow> (None, b)
                | Some originalTarget \<Rightarrow>
                    (let b1 = tryMove b fr fc tr tc (Some pc) in
                     case isKingInCheck b1 clr of
                       None \<Rightarrow> (None, b1)
                     | Some kingInCheck \<Rightarrow>
                         (let b2 = undoTry b1 fr fc tr tc (Some pc) originalTarget in
                          getAllLegalMoves_to b2 clr fr fc pc rest
                            (if \<not> kingInCheck
                             then moves @ [\<lparr>fromRow = fr, fromCol = fc, toRow = tr, toCol = tc\<rparr>]
                             else moves))))
          else getAllLegalMoves_to b clr fr fc pc rest moves)"

fun getAllLegalMoves_from ::
  "board \<Rightarrow> color \<Rightarrow> (int \<times> int) list \<Rightarrow> move list \<Rightarrow> move list option \<times> board" where
  "getAllLegalMoves_from b clr [] moves = (Some moves, b)"
| "getAllLegalMoves_from b clr ((fr, fc) # rest) moves =
     (case sq b fr fc of
        None \<Rightarrow> (None, b)
      | Some None \<Rightarrow> getAllLegalMoves_from b clr rest moves
      | Some (Some pc) \<Rightarrow>
          if color pc = clr
          then (case getAllLegalMoves_to b clr fr fc pc allSquares moves of
                  (None, b') \<Rightarrow> (None, b')
                | (Some moves', b') \<Rightarrow> getAllLegalMoves_from b' clr rest moves')
          else getAllLegalMoves_from b clr rest moves)"

definition getAllLegalMoves :: "board \<Rightarrow> color \<Rightarrow> move list option \<times> board" where
  "getAllLegalMoves b clr = getAllLegalMoves_from b clr allSquares []"

subsection \<open>\<open>evaluatePosition\<close>\<close>

fun materialLoop :: "board \<Rightarrow> color \<Rightarrow> (int \<times> int) list \<Rightarrow> int \<Rightarrow> int option" where
  "materialLoop b aiColor [] score = Some score"
| "materialLoop b aiColor ((row, col) # rest) score =
     (case sq b row col of
        None \<Rightarrow> None
      | Some None \<Rightarrow> materialLoop b aiColor rest score
      | Some (Some pc) \<Rightarrow>
          (let pieceValue = getPieceValue (ptype pc)
           in materialLoop b aiColor rest
                (if color pc = aiColor then score + pieceValue else score - pieceValue)))"

definition evaluatePosition :: "board \<Rightarrow> color \<Rightarrow> int option \<times> board" where
  "evaluatePosition b aiColor =
     (case materialLoop b aiColor allSquares 0 of
        None \<Rightarrow> (None, b)
      | Some score0 \<Rightarrow>
          (let opponentColor = (if aiColor = White then Black else White) in
           case isKingInCheck b opponentColor of
             None \<Rightarrow> (None, b)
           | Some oppInCheck \<Rightarrow>
               (case (if oppInCheck
                      then (case isCheckmate b opponentColor of
                              (None, b') \<Rightarrow> (None, b')
                            | (Some mate, b') \<Rightarrow>
                                (Some (score0 + 50 + (if mate then 1000 else 0)), b'))
                      else (Some score0, b)) of
                  (None, b1) \<Rightarrow> (None, b1)
                | (Some score1, b1) \<Rightarrow>
                    (case isKingInCheck b1 aiColor of
                       None \<Rightarrow> (None, b1)
                     | Some aiInCheck \<Rightarrow>
                         if aiInCheck
                         then (case isCheckmate b1 aiColor of
                                 (None, b2) \<Rightarrow> (None, b2)
                               | (Some mate, b2) \<Rightarrow>
                                   (Some (score1 - 50 - (if mate then 1000 else 0)), b2))
                         else (Some score1, b1)))))"

subsection \<open>\<open>minimax\<close>\<close>

text \<open>The numbers of the search: the integer scores and the two infinities that
  start \<open>alpha\<close>, \<open>beta\<close>, \<open>maxEval\<close>, \<open>minEval\<close> and \<open>bestScore\<close>.\<close>

datatype num = NegInf | Fin int | PosInf

fun num_le :: "num \<Rightarrow> num \<Rightarrow> bool" where
  "num_le NegInf y = True"
| "num_le (Fin x) NegInf = False"
| "num_le (Fin x) (Fin y) = (x \<le> y)"
| "num_le (Fin x) PosInf = True"
| "num_le PosInf PosInf = True"
| "num_le PosInf y = False"

definition num_max :: "num \<Rightarrow> num \<Rightarrow> num" where
  "num_max x y = (if num_le x y then y else x)"

definition num_min :: "num \<Rightarrow> num \<Rightarrow> num" where
  "num_min x y = (if num_le x y then x else y)"

text \<open>
  The two loops over the moves of a node. \<open>child\<close> is the recursive call
  \<open>this.minimax(game, depth - 1, alpha, beta, ...)\<close> on the board of the trial; the
  loop ends at the \<open>break\<close> of the cutoff \<open>beta <= alpha\<close>.
\<close>

fun maxLoop ::
  "(board \<Rightarrow> num \<Rightarrow> num \<Rightarrow> num option \<times> board) \<Rightarrow> board \<Rightarrow> move list \<Rightarrow> num \<Rightarrow> num \<Rightarrow> num
     \<Rightarrow> num option \<times> board" where
  "maxLoop child b [] maxEval alpha beta = (Some maxEval, b)"
| "maxLoop child b (m # rest) maxEval alpha beta =
     (case sq b (toRow m) (toCol m) of
        None \<Rightarrow> (None, b)
      | Some originalTarget \<Rightarrow>
          (case sq b (fromRow m) (fromCol m) of
             None \<Rightarrow> (None, b)
           | Some movingPiece \<Rightarrow>
               (let b1 = tryMove b (fromRow m) (fromCol m) (toRow m) (toCol m) movingPiece in
                case child b1 alpha beta of
                  (None, b2) \<Rightarrow> (None, b2)
                | (Some ev, b2) \<Rightarrow>
                    (let b3 = undoTry b2 (fromRow m) (fromCol m) (toRow m) (toCol m)
                                movingPiece originalTarget;
                         maxEval' = num_max maxEval ev;
                         alpha' = num_max alpha ev
                     in if num_le beta alpha' then (Some maxEval', b3)
                        else maxLoop child b3 rest maxEval' alpha' beta))))"

fun minLoop ::
  "(board \<Rightarrow> num \<Rightarrow> num \<Rightarrow> num option \<times> board) \<Rightarrow> board \<Rightarrow> move list \<Rightarrow> num \<Rightarrow> num \<Rightarrow> num
     \<Rightarrow> num option \<times> board" where
  "minLoop child b [] minEval alpha beta = (Some minEval, b)"
| "minLoop child b (m # rest) minEval alpha beta =
     (case sq b (toRow m) (toCol m) of
        None \<Rightarrow> (None, b)
      | Some originalTarget \<Rightarrow>
          (case sq b (fromRow m) (fromCol m) of
             None \<Rightarrow> (None, b)
           | Some movingPiece \<Rightarrow>
               (let b1 = tryMove b (fromRow m) (fromCol m) (toRow m) (toCol m) movingPiece in
                case child b1 alpha beta of
                  (None, b2) \<Rightarrow> (None, b2)
                | (Some ev, b2) \<Rightarrow>
                    (let b3 = undoTry b2 (fromRow m) (fromCol m) (toRow m) (toCol m)
                                movingPiece originalTarget;
                         minEval' = num_min minEval ev;
                         beta' = num_min beta ev
                     in if num_le beta' alpha then (Some minEval', b3)
                        else minLoop child b3 rest minEval' alpha beta'))))"

text \<open>
  \<open>minimax(game, depth, alpha, beta, isMaximizing, aiColor)\<close>: of \<open>game\<close> it reads the
  board and the flag \<open>gameOver\<close>, which the search never writes. The depth is a natural
  number: the only call from outside passes \<open>3\<close> and every recursive call \<open>depth - 1\<close>.
\<close>

fun minimax ::
  "board \<Rightarrow> bool \<Rightarrow> nat \<Rightarrow> num \<Rightarrow> num \<Rightarrow> bool \<Rightarrow> color \<Rightarrow> num option \<times> board" where
  "minimax b over 0 alpha beta isMaximizing aiColor =
     (case evaluatePosition b aiColor of (r, b') \<Rightarrow> (map_option Fin r, b'))"
| "minimax b over (Suc d) alpha beta isMaximizing aiColor =
     (if over then (case evaluatePosition b aiColor of (r, b') \<Rightarrow> (map_option Fin r, b'))
      else
        (let currentColor =
               (if isMaximizing then aiColor else (if aiColor = White then Black else White))
         in case getAllLegalMoves b currentColor of
              (None, b') \<Rightarrow> (None, b')
            | (Some moves, b') \<Rightarrow>
                if length moves = 0
                then (case isKingInCheck b' currentColor of
                        None \<Rightarrow> (None, b')
                      | Some inCheck \<Rightarrow>
                          (Some (if inCheck
                                 then (if isMaximizing then Fin (- 1000) else Fin 1000)
                                 else Fin 0), b'))
                else if isMaximizing
                then maxLoop (\<lambda>bb a be. minimax bb over d a be False aiColor)
                       b' moves NegInf alpha beta
                else minLoop (\<lambda>bb a be. minimax bb over d a be True aiColor)
                       b' moves PosInf alpha beta))"

subsection \<open>The three tiers and \<open>getBestMove\<close>\<close>

text \<open>
  A selector returns \<open>Some (Some m)\<close> for a move, \<open>Some None\<close> for \<open>null\<close> and
  \<open>None\<close> when it raises. The draws of \<open>Math.random()\<close> are arguments:
  \<open>randomIndex\<close> is the value of \<open>Math.floor(Math.random() * moves.length)\<close> and
  \<open>pickBest\<close> the value of \<open>Math.random() < 0.8\<close>. An index past the end of the
  array reads \<open>undefined\<close>, which the caller tests like \<open>null\<close>.
\<close>

definition getRandomMove :: "board \<Rightarrow> color \<Rightarrow> nat \<Rightarrow> move option option \<times> board" where
  "getRandomMove b aiColor randomIndex =
     (case getAllLegalMoves b aiColor of
        (None, b') \<Rightarrow> (None, b')
      | (Some moves, b') \<Rightarrow>
          if length moves = 0 then (Some None, b')
          else (Some (if randomIndex < length moves then Some (moves ! randomIndex) else None), b'))"

text \<open>The callback of \<open>moves.map\<close>, run over the moves in order on the one board.\<close>

fun scoreMoves ::
  "board \<Rightarrow> color \<Rightarrow> move list \<Rightarrow> (move \<times> int) list \<Rightarrow> (move \<times> int) list option \<times> board" where
  "scoreMoves b aiColor [] scored = (Some scored, b)"
| "scoreMoves b aiColor (m # rest) scored =
     (case sq b (toRow m) (toCol m) of
        None \<Rightarrow> (None, b)
      | Some targetPiece \<Rightarrow>
          (let score0 = (case targetPiece of
                           None \<Rightarrow> 0
                         | Some tp \<Rightarrow> getPieceValue (ptype tp)) in
           case sq b (fromRow m) (fromCol m) of
             None \<Rightarrow> (None, b)
           | Some movingPiece \<Rightarrow>
               (let b1 = tryMove b (fromRow m) (fromCol m) (toRow m) (toCol m) movingPiece;
                    opponentColor = (if aiColor = White then Black else White)
                in case isKingInCheck b1 opponentColor of
                     None \<Rightarrow> (None, b1)
                   | Some givesCheck \<Rightarrow>
                       (let score1 = (if givesCheck then score0 + 10 else score0);
                            b2 = undoTry b1 (fromRow m) (fromCol m) (toRow m) (toCol m)
                                   movingPiece targetPiece
                        in scoreMoves b2 aiColor rest (scored @ [(m, score1)])))))"

text \<open>\<open>scoredMoves.sort((a, b) => b.score - a.score)\<close>: a stable sort, highest score
  first.\<close>

definition getMediumMove ::
  "board \<Rightarrow> color \<Rightarrow> bool \<Rightarrow> nat \<Rightarrow> move option option \<times> board" where
  "getMediumMove b aiColor pickBest randomIndex =
     (case getAllLegalMoves b aiColor of
        (None, b') \<Rightarrow> (None, b')
      | (Some moves, b') \<Rightarrow>
          if length moves = 0 then (Some None, b')
          else (case scoreMoves b' aiColor moves [] of
                  (None, b'') \<Rightarrow> (None, b'')
                | (Some scoredMoves, b'') \<Rightarrow>
                    (let sorted = sort_key (\<lambda>sm. - snd sm) scoredMoves
                     in if pickBest
                        then (case sorted of
                                [] \<Rightarrow> (None, b'')
                              | sm # others \<Rightarrow> (Some (Some (fst sm)), b''))
                        else (Some (if randomIndex < length moves
                                    then Some (moves ! randomIndex) else None), b''))))"

fun getHardMove_loop ::
  "board \<Rightarrow> bool \<Rightarrow> color \<Rightarrow> move list \<Rightarrow> move option \<Rightarrow> num \<Rightarrow> move option option \<times> board" where
  "getHardMove_loop b over aiColor [] bestMove bestScore = (Some bestMove, b)"
| "getHardMove_loop b over aiColor (m # rest) bestMove bestScore =
     (case sq b (toRow m) (toCol m) of
        None \<Rightarrow> (None, b)
      | Some originalTarget \<Rightarrow>
          (case sq b (fromRow m) (fromCol m) of
             None \<Rightarrow> (None, b)
           | Some movingPiece \<Rightarrow>
               (let b1 = tryMove b (fromRow m) (fromCol m) (toRow m) (toCol m) movingPiece in
                case minimax b1 over 3 NegInf PosInf False aiColor of
                  (None, b2) \<Rightarrow> (None, b2)
                | (Some score, b2) \<Rightarrow>
                    (let b3 = undoTry b2 (fromRow m) (fromCol m) (toRow m) (toCol m)
                                movingPiece originalTarget
                     in if \<not> num_le score bestScore
                        then getHardMove_loop b3 over aiColor rest (Some m) score
                        else getHardMove_loop b3 over aiColor rest bestMove bestScore))))"

definition getHardMove :: "board \<Rightarrow> bool \<Rightarrow> color \<Rightarrow> move option option \<times> board" where
  "getHardMove b over aiColor =
     (case getAllLegalMoves b aiColor of
        (None, b') \<Rightarrow> (None, b')
      | (Some moves, b') \<Rightarrow>
          if length moves = 0 then (Some None, b')
          else getHardMove_loop b' over aiColor moves None NegInf)"

text \<open>The difficulty is a string; \<open>Other\<close> stands for every string that is none of
  the three, which the \<open>default\<close> branch sends to the random tier.\<close>

datatype difficulty = Easy | Medium | Hard | Other

definition getBestMove ::
  "difficulty \<Rightarrow> board \<Rightarrow> bool \<Rightarrow> color \<Rightarrow> bool \<Rightarrow> nat \<Rightarrow> move option option \<times> board" where
  "getBestMove difficulty b over aiColor pickBest randomIndex =
     (case difficulty of
        Easy \<Rightarrow> getRandomMove b aiColor randomIndex
      | Medium \<Rightarrow> getMediumMove b aiColor pickBest randomIndex
      | Hard \<Rightarrow> getHardMove b over aiColor
      | Other \<Rightarrow> getRandomMove b aiColor randomIndex)"

section \<open>Notions of the specification\<close>

text \<open>
  The opening moves of each side as (fromRow, fromCol, toRow, toCol): the one- and
  two-step pushes of the eight pawns and the two jumps of each knight.
\<close>

definition whiteOpening :: "(int \<times> int \<times> int \<times> int) list" where
  "whiteOpening =
     concat (map (\<lambda>c. [(6, c, 5, c), (6, c, 4, c)]) [0..7]) @
     [(7, 1, 5, 0), (7, 1, 5, 2), (7, 6, 5, 5), (7, 6, 5, 7)]"

definition blackOpening :: "(int \<times> int \<times> int \<times> int) list" where
  "blackOpening =
     concat (map (\<lambda>c. [(1, c, 2, c), (1, c, 3, c)]) [0..7]) @
     [(0, 1, 2, 0), (0, 1, 2, 2), (0, 6, 2, 5), (0, 6, 2, 7)]"

text \<open>The pairs of squares of the board that \<open>isValidMove\<close> accepts.\<close>

definition validPairs :: "board \<Rightarrow> (int \<times> int \<times> int \<times> int) list" where
  "validPairs b =
     concat (map (\<lambda>(fr, fc).
       map (\<lambda>(tr, tc). (fr, fc, tr, tc))
         (filter (\<lambda>(tr, tc). isValidMove b fr fc tr tc = Some True) allSquares)) allSquares)"

text \<open>
  A legal move of a side (glossary): a piece of the side stands on the origin, the move is
  pseudo-legal (\<open>isValidMove\<close>), and tentatively applied it leaves the side's own king
  out of check. The legal moves of a side are listed in row-major order of the origin,
  then of the destination.
\<close>

definition legalMove :: "board \<Rightarrow> color \<Rightarrow> int \<Rightarrow> int \<Rightarrow> int \<Rightarrow> int \<Rightarrow> bool" where
  "legalMove b clr fr fc tr tc =
     (case sq b fr fc of
        Some (Some pc) \<Rightarrow>
          color pc = clr \<and> isValidMove b fr fc tr tc = Some True \<and>
          isKingInCheck (tryMove b fr fc tr tc (Some pc)) clr = Some False
      | _ \<Rightarrow> False)"

definition legalMoves :: "board \<Rightarrow> color \<Rightarrow> move list" where
  "legalMoves b clr =
     concat (map (\<lambda>(fr, fc).
       map (\<lambda>(tr, tc). \<lparr>fromRow = fr, fromCol = fc, toRow = tr, toCol = tc\<rparr>)
         (filter (\<lambda>(tr, tc). legalMove b clr fr fc tr tc) allSquares)) allSquares)"

text \<open>Some move of the side, tentatively applied, leaves its king out of check.\<close>

definition canEscape :: "board \<Rightarrow> color \<Rightarrow> bool" where
  "canEscape b clr =
     (\<exists>(fr, fc) \<in> set allSquares. \<exists>(tr, tc) \<in> set allSquares. legalMove b clr fr fc tr tc)"

text \<open>The data-model invariant of the specification: a king of the colour stands on the
  board, and exactly one does.\<close>

definition isKingOf :: "color \<Rightarrow> square \<Rightarrow> bool" where
  "isKingOf clr s = (case s of None \<Rightarrow> False | Some pc \<Rightarrow> ptype pc = King \<and> color pc = clr)"

definition hasKing :: "board \<Rightarrow> color \<Rightarrow> bool" where
  "hasKing b clr =
     (\<exists>(r, c) \<in> set allSquares. case sq b r c of None \<Rightarrow> False | Some s \<Rightarrow> isKingOf clr s)"

definition oneKing :: "board \<Rightarrow> color \<Rightarrow> bool" where
  "oneKing b clr = (length (filter (isKingOf clr) (concat b)) = 1)"

text \<open>
  The material of the static evaluation, in the words of the specification: the sum of
  the values of all pieces on the board, positive for the pieces of the computer's
  colour and negative for the opponent's.
\<close>

definition pieceValue :: "ptype \<Rightarrow> int" where
  "pieceValue k =
     (case k of Pawn \<Rightarrow> 1 | Knight \<Rightarrow> 3 | Bishop \<Rightarrow> 3 | Rook \<Rightarrow> 5 | Queen \<Rightarrow> 9 | King \<Rightarrow> 100)"

definition signedValue :: "color \<Rightarrow> square \<Rightarrow> int" where
  "signedValue aiColor s =
     (case s of
        None \<Rightarrow> 0
      | Some pc \<Rightarrow> if color pc = aiColor then pieceValue (ptype pc) else - pieceValue (ptype pc))"

definition material :: "board \<Rightarrow> color \<Rightarrow> int" where
  "material b aiColor = sum_list (map (signedValue aiColor) (concat b))"

text \<open>In check, and checkmated (glossary: in check, with no legal move).\<close>

definition inCheck :: "board \<Rightarrow> color \<Rightarrow> bool" where
  "inCheck b clr = (isKingInCheck b clr = Some True)"

definition checkmated :: "board \<Rightarrow> color \<Rightarrow> bool" where
  "checkmated b clr = (inCheck b clr \<and> \<not> canEscape b clr)"

definition moveInRange :: "move \<Rightarrow> bool" where
  "moveInRange m = (inRange (fromRow m) \<and> inRange (fromCol m) \<and> inRange (toRow m) \<and> inRange (toCol m))"

section \<open>Positions used as concrete inputs\<close>

definition emptyBoard :: board where
  "emptyBoard = replicate 8 (replicate 8 None)"

text \<open>The white king on its home square in check from a rook on the open file.\<close>

definition rookCheck :: board where
  "rookCheck =
     put (put (put emptyBoard 7 4 (Some \<lparr>ptype = King, color = White\<rparr>))
            0 4 (Some \<lparr>ptype = Rook, color = Black\<rparr>))
       0 0 (Some \<lparr>ptype = King, color = Black\<rparr>)"

text \<open>The white king in the corner, mated by two rooks on the last two rows.\<close>

definition ladderMate :: board where
  "ladderMate =
     put (put (put (put emptyBoard 7 7 (Some \<lparr>ptype = King, color = White\<rparr>))
                 7 0 (Some \<lparr>ptype = Rook, color = Black\<rparr>))
            6 0 (Some \<lparr>ptype = Rook, color = Black\<rparr>))
       0 4 (Some \<lparr>ptype = King, color = Black\<rparr>)"

text \<open>
  Two human players, White to move; the queen goes from (1, 7) to (1, 2), after which the
  black king in the corner (0, 0) is not attacked and has no square to go to.
\<close>

definition beforeStalemate :: board where
  "beforeStalemate =
     put (put (put emptyBoard 0 0 (Some \<lparr>ptype = King, color = Black\<rparr>))
            1 7 (Some \<lparr>ptype = Queen, color = White\<rparr>))
       7 7 (Some \<lparr>ptype = King, color = White\<rparr>)"

definition stalemateGame :: game where
  "stalemateGame =
     \<lparr>board = beforeStalemate, currentPlayer = White, gameOver = False,
      moveHistory = [], gameMode = Human\<rparr>"

text \<open>
  Black to move with the white king left standing next to the black rook, as after a
  white move that ignored the attack (the click handler accepts every move that
  \<open>isValidMove\<close> accepts).
\<close>

definition kingEnPrise :: board where
  "kingEnPrise =
     put (put (put emptyBoard 0 0 (Some \<lparr>ptype = Rook, color = Black\<rparr>))
            0 1 (Some \<lparr>ptype = King, color = White\<rparr>))
       7 7 (Some \<lparr>ptype = King, color = Black\<rparr>)"

text \<open>A white pawn one step from the last row, with a black rook to capture there.\<close>

definition promotionGame :: game where
  "promotionGame =
     \<lparr>board = put (put (put (put emptyBoard 1 0 (Some \<lparr>ptype = Pawn, color = White\<rparr>))
                          0 1 (Some \<lparr>ptype = Rook, color = Black\<rparr>))
                     0 7 (Some \<lparr>ptype = King, color = Black\<rparr>))
                7 4 (Some \<lparr>ptype = King, color = White\<rparr>),
      currentPlayer = White, gameOver = False,
      moveHistory = [\<lparr>fromRow = 2, fromCol = 1, toRow = 0, toCol = 1,
                      piece = \<lparr>ptype = Rook, color = Black\<rparr>, capturedPiece = None\<rparr>],
      gameMode = Human\<rparr>"

section \<open>The game after a move\<close>

text \<open>
  The game that \<open>movePiece\<close> leaves when a piece \<open>pc\<close> stands on the origin and
  \<open>captured\<close> is the content of the destination: the piece, promoted if it is a pawn
  reaching row 0 or row 7, on the destination, the origin empty, the other side to move,
  the flag raised when that side is checkmated, one record more in the history.
\<close>

definition afterMove :: "game \<Rightarrow> int \<Rightarrow> int \<Rightarrow> int \<Rightarrow> int \<Rightarrow> piece \<Rightarrow> square \<Rightarrow> game" where
  "afterMove g fr fc tr tc pc captured =
     (let promoted = (if ptype pc = Pawn \<and> (tr = 0 \<or> tr = 7) then pc\<lparr>ptype := Queen\<rparr> else pc);
          b' = put (put (board g) tr tc (Some promoted)) fr fc None;
          nextPlayer = (if currentPlayer g = White then Black else White)
      in \<lparr>board = b', currentPlayer = nextPlayer,
          gameOver = (if checkmated b' nextPlayer then True else gameOver g),
          moveHistory = moveHistory g @
            [\<lparr>fromRow = fr, fromCol = fc, toRow = tr, toCol = tc,
              piece = pc, capturedPiece = captured\<rparr>],
          gameMode = gameMode g\<rparr>)"

text \<open>
  A position as play by legal moves produces it, seen from the side to move: both kings
  stand on the board and the side that has just moved is not in check.
\<close>

definition playable :: "board \<Rightarrow> color \<Rightarrow> bool" where
  "playable b mover =
     (wf_board b \<and> hasKing b White \<and> hasKing b Black \<and>
      isKingInCheck b (opposite mover) = Some False)"

section \<open>Reading and writing squares\<close>

lemma set_allSquares: "set allSquares = {(r, c). inRange r \<and> inRange c}"
proof -
  have "set [0..7] = {i. inRange i}" by (auto simp: inRange_def)
  then show ?thesis by (auto simp: allSquares_def)
qed

lemma wf_board_rows: "wf_board b \<Longrightarrow> inRange r \<Longrightarrow> length (b ! nat r) = 8"
  by (auto simp: wf_board_def inRange_def list_all_length)

lemma sq_wf: "wf_board b \<Longrightarrow> inRange r \<Longrightarrow> inRange c \<Longrightarrow> sq b r c = Some (b ! nat r ! nat c)"
  using wf_board_rows[of b r] by (auto simp: sq_def wf_board_def inRange_def)

lemma sq_row_None: "wf_board b \<Longrightarrow> \<not> inRange r \<Longrightarrow> sq b r c = None"
  by (auto simp: sq_def wf_board_def inRange_def)

lemma sq_row_Some: "wf_board b \<Longrightarrow> inRange r \<Longrightarrow> \<exists>v. sq b r c = Some v"
  by (auto simp: sq_def wf_board_def inRange_def)

lemma wf_put: "wf_board b \<Longrightarrow> wf_board (put b r c v)"
  by (auto simp: wf_board_def put_def list_all_length nth_list_update)

lemma sq_put:
  assumes "wf_board b" "inRange r" "inRange c"
  shows "sq (put b r c v) r' c' = (if r' = r \<and> c' = c then Some v else sq b r' c')"
proof -
  have len: "length b = 8" "length (b ! nat r) = 8"
    using assms wf_board_rows by (auto simp: wf_board_def)
  show ?thesis
  proof (cases "r' = r")
    case True
    then show ?thesis
      using assms len by (auto simp: sq_def put_def inRange_def nth_list_update nat_eq_iff)
  next
    case False
    then have "nat r' \<noteq> nat r \<or> r' < 0" using assms by (auto simp: inRange_def)
    then show ?thesis
      using False assms len by (auto simp: sq_def put_def inRange_def nth_list_update)
  qed
qed

lemma board_ext:
  assumes "wf_board b" "wf_board b'"
    and eq: "\<And>r c. inRange r \<Longrightarrow> inRange c \<Longrightarrow> sq b r c = sq b' r c"
  shows "b = b'"
proof (rule nth_equalityI)
  show "length b = length b'" using assms by (simp add: wf_board_def)
next
  fix i assume i: "i < length b"
  then have ri: "inRange (int i)" using assms by (simp add: wf_board_def inRange_def)
  show "b ! i = b' ! i"
  proof (rule nth_equalityI)
    show "length (b ! i) = length (b' ! i)"
      using wf_board_rows[OF assms(1) ri] wf_board_rows[OF assms(2) ri] by simp
  next
    fix j assume "j < length (b ! i)"
    then have rj: "inRange (int j)"
      using wf_board_rows[OF assms(1) ri] by (simp add: inRange_def)
    from eq[OF ri rj] show "b ! i ! j = b' ! i ! j"
      by (simp add: sq_wf[OF assms(1) ri rj] sq_wf[OF assms(2) ri rj])
  qed
qed

lemma wf_tryMove: "wf_board b \<Longrightarrow> wf_board (tryMove b fr fc tr tc mp)"
  by (simp add: tryMove_def wf_put)

lemma wf_undoTry: "wf_board b \<Longrightarrow> wf_board (undoTry b fr fc tr tc mp orig)"
  by (simp add: undoTry_def wf_put)

lemma sq_tryMove:
  assumes "wf_board b" "inRange fr" "inRange fc" "inRange tr" "inRange tc"
  shows "sq (tryMove b fr fc tr tc mp) r c =
           (if r = fr \<and> c = fc then Some None
            else if r = tr \<and> c = tc then Some mp else sq b r c)"
  using assms by (simp add: tryMove_def sq_put wf_put)

lemma undoTry_tryMove:
  assumes wf: "wf_board b"
    and rng: "inRange fr" "inRange fc" "inRange tr" "inRange tc"
    and frm: "sq b fr fc = Some mp" and dst: "sq b tr tc = Some orig"
  shows "undoTry (tryMove b fr fc tr tc mp) fr fc tr tc mp orig = b"
proof (rule board_ext)
  show "wf_board (undoTry (tryMove b fr fc tr tc mp) fr fc tr tc mp orig)"
    using wf by (simp add: wf_undoTry wf_tryMove)
  show "wf_board b" by (rule wf)
next
  fix r c assume "inRange r" "inRange c"
  show "sq (undoTry (tryMove b fr fc tr tc mp) fr fc tr tc mp orig) r c = sq b r c"
    using wf rng frm dst
    by (auto simp: undoTry_def tryMove_def sq_put wf_put)
qed

lemma isValidMove_same_never: "isValidMove b r c r c \<noteq> Some True"
  by (auto simp: isValidMove_def split: option.splits)

section \<open>The loops that try moves\<close>

lemma isCheckmate_to_partial:
  assumes wf: "wf_board b" and rng: "inRange fr" "inRange fc"
    and frm: "sq b fr fc = Some (Some pc)"
  shows "\<forall>(tr, tc) \<in> set ds. inRange tr \<and> inRange tc \<Longrightarrow>
         isCheckmate_to b clr fr fc pc ds = (Some v, b') \<Longrightarrow>
         b' = b \<and>
         v = (\<exists>(tr, tc) \<in> set ds. isValidMove b fr fc tr tc = Some True \<and>
                isKingInCheck (tryMove b fr fc tr tc (Some pc)) clr = Some False)"
proof (induction ds)
  case Nil
  then show ?case by simp
next
  case (Cons d ds)
  obtain tr tc where d: "d = (tr, tc)" by (cases d)
  have trc: "inRange tr" "inRange tc" using Cons.prems(1) d by auto
  obtain orig where orig: "sq b tr tc = Some orig"
    using sq_row_Some[OF wf trc(1)] by blast
  have restore: "undoTry (tryMove b fr fc tr tc (Some pc)) fr fc tr tc (Some pc) orig = b"
    by (rule undoTry_tryMove[OF wf rng trc frm orig])
  have rest: "\<forall>(tr, tc) \<in> set ds. inRange tr \<and> inRange tc" using Cons.prems(1) by simp
  show ?case
  proof (cases "isValidMove b fr fc tr tc")
    case None
    with Cons.prems(2) d show ?thesis by simp
  next
    case (Some valid)
    show ?thesis
    proof (cases valid)
      case False
      with Some Cons.prems(2) d have "isCheckmate_to b clr fr fc pc ds = (Some v, b')" by simp
      from Cons.IH[OF rest this] Some False d show ?thesis by simp
    next
      case True
      show ?thesis
      proof (cases "isKingInCheck (tryMove b fr fc tr tc (Some pc)) clr")
        case None
        with Some True orig Cons.prems(2) d show ?thesis by (simp add: Let_def)
      next
        case (Some still)
        show ?thesis
        proof (cases still)
          case False
          with \<open>isValidMove b fr fc tr tc = Some valid\<close> True orig Some restore Cons.prems(2) d
          show ?thesis by (auto simp: Let_def)
        next
          case True
          with \<open>isValidMove b fr fc tr tc = Some valid\<close> \<open>valid\<close> orig Some restore Cons.prems(2) d
          have "isCheckmate_to b clr fr fc pc ds = (Some v, b')" by (simp add: Let_def)
          from Cons.IH[OF rest this] Some True d show ?thesis by simp
        qed
      qed
    qed
  qed
qed

lemma getAllLegalMoves_to_partial:
  assumes wf: "wf_board b" and rng: "inRange fr" "inRange fc"
    and frm: "sq b fr fc = Some (Some pc)" and pc: "color pc = clr"
  shows "\<forall>(tr, tc) \<in> set ds. inRange tr \<and> inRange tc \<Longrightarrow>
         getAllLegalMoves_to b clr fr fc pc ds moves = (Some ms, b') \<Longrightarrow>
         b' = b \<and>
         ms = moves @ map (\<lambda>(tr, tc). \<lparr>fromRow = fr, fromCol = fc, toRow = tr, toCol = tc\<rparr>)
                (filter (\<lambda>(tr, tc). legalMove b clr fr fc tr tc) ds)"
proof (induction ds arbitrary: moves)
  case Nil
  then show ?case by simp
next
  case (Cons d ds)
  obtain tr tc where d: "d = (tr, tc)" by (cases d)
  have trc: "inRange tr" "inRange tc" using Cons.prems(1) d by auto
  obtain orig where orig: "sq b tr tc = Some orig"
    using sq_row_Some[OF wf trc(1)] by blast
  have restore: "undoTry (tryMove b fr fc tr tc (Some pc)) fr fc tr tc (Some pc) orig = b"
    by (rule undoTry_tryMove[OF wf rng trc frm orig])
  have rest: "\<forall>(tr, tc) \<in> set ds. inRange tr \<and> inRange tc" using Cons.prems(1) by simp
  show ?case
    using Cons.prems(2) Cons.IH[OF rest, of moves]
      Cons.IH[OF rest, of "moves @ [\<lparr>fromRow = fr, fromCol = fc, toRow = tr, toCol = tc\<rparr>]"]
      d orig restore frm pc
    by (auto simp: Let_def legalMove_def split: option.splits if_splits)
qed

lemma allSquares_inRange: "\<forall>(r, c) \<in> set allSquares. inRange r \<and> inRange c"
  by (simp add: set_allSquares)

lemma isCheckmate_from_partial:
  assumes wf: "wf_board b"
  shows "\<forall>(fr, fc) \<in> set os. inRange fr \<and> inRange fc \<Longrightarrow>
         isCheckmate_from b clr os = (Some v, b') \<Longrightarrow>
         b' = b \<and>
         v = (\<exists>(fr, fc) \<in> set os. \<exists>(tr, tc) \<in> set allSquares. legalMove b clr fr fc tr tc)"
proof (induction os)
  case Nil
  then show ?case by simp
next
  case (Cons d os)
  obtain fr fc where d: "d = (fr, fc)" by (cases d)
  have rng: "inRange fr" "inRange fc" using Cons.prems(1) d by auto
  have rest: "\<forall>(fr, fc) \<in> set os. inRange fr \<and> inRange fc" using Cons.prems(1) by simp
  obtain x where x: "sq b fr fc = Some x" using sq_row_Some[OF wf rng(1)] by blast
  show ?case
  proof (cases x)
    case None
    with x Cons.prems(2) d have "isCheckmate_from b clr os = (Some v, b')" by simp
    from Cons.IH[OF rest this] x None d show ?thesis by (simp add: legalMove_def)
  next
    case (Some pc)
    show ?thesis
    proof (cases "color pc = clr")
      case False
      with x Some Cons.prems(2) d have "isCheckmate_from b clr os = (Some v, b')" by simp
      from Cons.IH[OF rest this] x Some False d show ?thesis by (simp add: legalMove_def)
    next
      case True
      have frm: "sq b fr fc = Some (Some pc)" using x Some by simp
      obtain r b1 where r: "isCheckmate_to b clr fr fc pc allSquares = (r, b1)"
        by (cases "isCheckmate_to b clr fr fc pc allSquares")
      show ?thesis
      proof (cases r)
        case None
        with r frm True Cons.prems(2) d show ?thesis by simp
      next
        case (Some esc)
        from isCheckmate_to_partial[OF wf rng frm allSquares_inRange r[unfolded Some]]
        have b1: "b1 = b"
          and esc: "esc = (\<exists>(tr, tc) \<in> set allSquares. legalMove b clr fr fc tr tc)"
          using frm True by (simp_all add: legalMove_def)
        show ?thesis
        proof (cases esc)
          case True
          with r Some frm \<open>color pc = clr\<close> Cons.prems(2) d b1 esc show ?thesis by auto
        next
          case False
          with r Some frm \<open>color pc = clr\<close> Cons.prems(2) d b1
          have "isCheckmate_from b clr os = (Some v, b')" by simp
          from Cons.IH[OF rest this] False esc d show ?thesis by simp
        qed
      qed
    qed
  qed
qed

lemma isCheckmate_partial:
  assumes wf: "wf_board b" and res: "isCheckmate b clr = (Some v, b')"
  shows "b' = b \<and> v = (isKingInCheck b clr = Some True \<and> \<not> canEscape b clr)"
proof (cases "isKingInCheck b clr")
  case None
  with res show ?thesis by (simp add: isCheckmate_def)
next
  case (Some inCheck)
  show ?thesis
  proof (cases inCheck)
    case False
    with Some res show ?thesis by (auto simp: isCheckmate_def)
  next
    case True
    obtain r b1 where r: "isCheckmate_from b clr allSquares = (r, b1)"
      by (cases "isCheckmate_from b clr allSquares")
    show ?thesis
    proof (cases r)
      case None
      with r Some True res show ?thesis by (simp add: isCheckmate_def)
    next
      case (Some esc)
      from isCheckmate_from_partial[OF wf allSquares_inRange r[unfolded Some]]
      have "b1 = b" and "esc = canEscape b clr" by (simp_all add: canEscape_def)
      with r Some True \<open>isKingInCheck b clr = Some inCheck\<close> res show ?thesis
        by (auto simp: isCheckmate_def)
    qed
  qed
qed

lemma getAllLegalMoves_from_partial:
  assumes wf: "wf_board b"
  shows "\<forall>(fr, fc) \<in> set os. inRange fr \<and> inRange fc \<Longrightarrow>
         getAllLegalMoves_from b clr os moves = (Some ms, b') \<Longrightarrow>
         b' = b \<and>
         ms = moves @ concat (map (\<lambda>(fr, fc).
                map (\<lambda>(tr, tc). \<lparr>fromRow = fr, fromCol = fc, toRow = tr, toCol = tc\<rparr>)
                  (filter (\<lambda>(tr, tc). legalMove b clr fr fc tr tc) allSquares)) os)"
proof (induction os arbitrary: moves)
  case Nil
  then show ?case by simp
next
  case (Cons d os)
  obtain fr fc where d: "d = (fr, fc)" by (cases d)
  have rng: "inRange fr" "inRange fc" using Cons.prems(1) d by auto
  have rest: "\<forall>(fr, fc) \<in> set os. inRange fr \<and> inRange fc" using Cons.prems(1) by simp
  obtain x where x: "sq b fr fc = Some x" using sq_row_Some[OF wf rng(1)] by blast
  show ?case
  proof (cases x)
    case None
    with x Cons.prems(2) d have "getAllLegalMoves_from b clr os moves = (Some ms, b')" by simp
    from Cons.IH[OF rest this] x None d show ?thesis by (simp add: legalMove_def)
  next
    case (Some pc)
    show ?thesis
    proof (cases "color pc = clr")
      case False
      with x Some Cons.prems(2) d
      have "getAllLegalMoves_from b clr os moves = (Some ms, b')" by simp
      from Cons.IH[OF rest this] x Some False d show ?thesis by (simp add: legalMove_def)
    next
      case True
      have frm: "sq b fr fc = Some (Some pc)" using x Some by simp
      obtain r b1 where r: "getAllLegalMoves_to b clr fr fc pc allSquares moves = (r, b1)"
        by (cases "getAllLegalMoves_to b clr fr fc pc allSquares moves")
      show ?thesis
      proof (cases r)
        case None
        with r frm True Cons.prems(2) d show ?thesis by simp
      next
        case (Some ms1)
        from getAllLegalMoves_to_partial[OF wf rng frm True allSquares_inRange r[unfolded Some]]
        have b1: "b1 = b"
          and ms1: "ms1 = moves @ map (\<lambda>(tr, tc). \<lparr>fromRow = fr, fromCol = fc, toRow = tr, toCol = tc\<rparr>)
                (filter (\<lambda>(tr, tc). legalMove b clr fr fc tr tc) allSquares)"
          by simp_all
        from r Some frm True Cons.prems(2) d b1
        have "getAllLegalMoves_from b clr os ms1 = (Some ms, b')" by simp
        from Cons.IH[OF rest this] ms1 d show ?thesis by simp
      qed
    qed
  qed
qed

lemma getAllLegalMoves_partial:
  assumes "wf_board b" and "getAllLegalMoves b clr = (Some ms, b')"
  shows "b' = b \<and> ms = legalMoves b clr"
  using getAllLegalMoves_from_partial[OF assms(1) allSquares_inRange, of clr "[]" ms b'] assms(2)
  by (simp add: getAllLegalMoves_def legalMoves_def)

section \<open>The queries raise nothing on a board with the king\<close>

lemma pathClear_total:
  assumes wf: "wf_board b"
  shows "\<forall>(r, c) \<in> set sqs. inRange r \<Longrightarrow> pathClear b sqs \<noteq> None"
proof (induction sqs)
  case Nil
  then show ?case by simp
next
  case (Cons d sqs)
  obtain r c where d: "d = (r, c)" by (cases d)
  have "inRange r" using Cons.prems d by simp
  then obtain x where x: "sq b r c = Some x" using sq_row_Some[OF wf] by blast
  from Cons.IH Cons.prems have "pathClear b sqs \<noteq> None" by auto
  with x d show ?case by (cases x) auto
qed

lemma isValidRookMove_total:
  assumes "wf_board b" "inRange fr" "inRange fc" "inRange tr" "inRange tc"
  shows "isValidRookMove b fr fc tr tc \<noteq> None"
proof -
  have "pathClear b (map (\<lambda>c. (fr, c)) [min fc tc + 1 .. max fc tc - 1]) \<noteq> None"
    using assms by (intro pathClear_total) auto
  moreover have "pathClear b (map (\<lambda>r. (r, fc)) [min fr tr + 1 .. max fr tr - 1]) \<noteq> None"
    using assms by (intro pathClear_total) (auto simp: inRange_def)
  ultimately show ?thesis by (auto simp: isValidRookMove_def)
qed

lemma isValidBishopMove_total:
  assumes "wf_board b" "inRange fr" "inRange fc" "inRange tr" "inRange tc"
  shows "isValidBishopMove b fr fc tr tc \<noteq> None"
proof (cases "\<bar>fr - tr\<bar> = \<bar>fc - tc\<bar>")
  case False
  then show ?thesis by (auto simp: isValidBishopMove_def Let_def)
next
  case True
  have "pathClear b (map (\<lambda>i. (fr + i * (if tr > fr then 1 else - 1),
              fc + i * (if tc > fc then 1 else - 1))) [1 .. \<bar>fr - tr\<bar> - 1]) \<noteq> None"
    using assms by (intro pathClear_total) (auto simp: inRange_def)
  with True show ?thesis by (auto simp: isValidBishopMove_def Let_def)
qed

lemma isValidQueenMove_total:
  assumes "wf_board b" "inRange fr" "inRange fc" "inRange tr" "inRange tc"
  shows "isValidQueenMove b fr fc tr tc \<noteq> None"
  using isValidRookMove_total[OF assms] isValidBishopMove_total[OF assms]
  by (auto simp: isValidQueenMove_def)

lemma isValidPawnMove_total:
  assumes wf: "wf_board b" and rng: "inRange fr" "inRange fc" "inRange tr" "inRange tc"
    and frm: "sq b fr fc = Some (Some pc)"
  shows "isValidPawnMove b fr fc tr tc \<noteq> None"
proof -
  obtain t where t: "sq b tr tc = Some t" using sq_row_Some[OF wf rng(3)] by blast
  have mid: "fr = (if color pc = White then 6 else 1) \<Longrightarrow>
        \<exists>m. sq b (fr + (if color pc = White then - 1 else 1)) fc = Some m"
    by (rule sq_row_Some[OF wf]) (simp add: inRange_def)
  show ?thesis
  proof (cases "fr = (if color pc = White then 6 else 1)")
    case True
    from mid[OF True] obtain m where "sq b (fr + (if color pc = White then - 1 else 1)) fc = Some m"
      by blast
    with t frm show ?thesis by (auto simp: isValidPawnMove_def Let_def)
  next
    case False
    with t frm show ?thesis by (auto simp: isValidPawnMove_def Let_def)
  qed
qed

lemma isValidMove_total:
  assumes wf: "wf_board b" and rng: "inRange fr" "inRange fc" "inRange tr" "inRange tc"
  shows "isValidMove b fr fc tr tc \<noteq> None"
proof -
  obtain x where x: "sq b fr fc = Some x" using sq_row_Some[OF wf rng(1)] by blast
  obtain t where t: "sq b tr tc = Some t" using sq_row_Some[OF wf rng(3)] by blast
  show ?thesis
  proof (cases x)
    case None
    with x show ?thesis by (auto simp: isValidMove_def)
  next
    case (Some pc)
    with x have frm: "sq b fr fc = Some (Some pc)" by simp
    show ?thesis
      using frm t isValidPawnMove_total[OF wf rng frm] isValidRookMove_total[OF wf rng]
        isValidBishopMove_total[OF wf rng] isValidQueenMove_total[OF wf rng]
      by (cases "ptype pc") (auto simp: isValidMove_def)
  qed
qed

lemma hasKing_iff:
  "hasKing b clr = (\<exists>(r, c) \<in> set allSquares. \<exists>s. sq b r c = Some s \<and> isKingOf clr s)"
proof -
  have "\<And>r c. (case sq b r c of None \<Rightarrow> False | Some s \<Rightarrow> isKingOf clr s) =
                (\<exists>s. sq b r c = Some s \<and> isKingOf clr s)"
    by (simp split: option.splits)
  then show ?thesis by (simp add: hasKing_def case_prod_unfold)
qed

lemma findKing_cases:
  assumes wf: "wf_board b"
  shows "\<forall>(r, c) \<in> set sqs. inRange r \<and> inRange c \<Longrightarrow>
         (findKing b clr sqs = Some (- 1, - 1) \<and>
            (\<forall>(r, c) \<in> set sqs. \<forall>s. sq b r c = Some s \<longrightarrow> \<not> isKingOf clr s)) \<or>
         (\<exists>r c s. findKing b clr sqs = Some (r, c) \<and> (r, c) \<in> set sqs \<and>
            sq b r c = Some s \<and> isKingOf clr s)"
proof (induction sqs)
  case Nil
  then show ?case by simp
next
  case (Cons d sqs)
  obtain r c where d: "d = (r, c)" by (cases d)
  have "inRange r" using Cons.prems d by simp
  then obtain x where x: "sq b r c = Some x" using sq_row_Some[OF wf] by blast
  from Cons.IH Cons.prems
  have IH: "(findKing b clr sqs = Some (- 1, - 1) \<and>
            (\<forall>(r, c) \<in> set sqs. \<forall>s. sq b r c = Some s \<longrightarrow> \<not> isKingOf clr s)) \<or>
         (\<exists>r c s. findKing b clr sqs = Some (r, c) \<and> (r, c) \<in> set sqs \<and>
            sq b r c = Some s \<and> isKingOf clr s)" by simp
  show ?case
  proof (cases "isKingOf clr x")
    case True
    with x d show ?thesis by (auto simp: isKingOf_def split: option.splits)
  next
    case False
    with x d have "findKing b clr (d # sqs) = findKing b clr sqs"
      by (auto simp: isKingOf_def split: option.splits)
    with IH False x d show ?thesis by auto
  qed
qed

lemma attackScan_total:
  assumes wf: "wf_board b" and k: "inRange kr" "inRange kc"
  shows "\<forall>(r, c) \<in> set sqs. inRange r \<and> inRange c \<Longrightarrow> attackScan b opp kr kc sqs \<noteq> None"
proof (induction sqs)
  case Nil
  then show ?case by simp
next
  case (Cons d sqs)
  obtain r c where d: "d = (r, c)" by (cases d)
  have rc: "inRange r" "inRange c" using Cons.prems d by auto
  then obtain x where x: "sq b r c = Some x" using sq_row_Some[OF wf] by blast
  from Cons.IH Cons.prems have IH: "attackScan b opp kr kc sqs \<noteq> None" by simp
  from isValidMove_total[OF wf rc k] obtain v where "isValidMove b r c kr kc = Some v" by blast
  with IH x d show ?case by (cases x) auto
qed

lemma attackScan_no_king:
  assumes wf: "wf_board b" and k: "\<not> inRange kr"
  shows "attackScan b opp kr kc sqs \<noteq> Some True"
proof (induction sqs)
  case Nil
  then show ?case by simp
next
  case (Cons d sqs)
  obtain r c where d: "d = (r, c)" by (cases d)
  have "sq b kr kc = None" by (rule sq_row_None[OF wf k])
  then have "\<And>pc. sq b r c = Some (Some pc) \<Longrightarrow> isValidMove b r c kr kc = None"
    by (simp add: isValidMove_def)
  with Cons.IH d show ?case by (auto split: option.splits)
qed

lemma isKingInCheck_total:
  assumes wf: "wf_board b" and king: "hasKing b clr"
  shows "isKingInCheck b clr \<noteq> None"
proof -
  from findKing_cases[OF wf allSquares_inRange, of clr] king
  obtain r c where f: "findKing b clr allSquares = Some (r, c)" and "(r, c) \<in> set allSquares"
    by (auto simp: hasKing_iff)
  then have "inRange r" "inRange c" by (simp_all add: set_allSquares)
  from attackScan_total[OF wf this allSquares_inRange] f show ?thesis
    by (simp add: isKingInCheck_def)
qed

lemma isKingInCheck_True_hasKing:
  assumes wf: "wf_board b" and chk: "isKingInCheck b clr = Some True"
  shows "hasKing b clr"
proof (rule ccontr)
  assume no: "\<not> hasKing b clr"
  with findKing_cases[OF wf allSquares_inRange, of clr]
  have "findKing b clr allSquares = Some (- 1, - 1)" by (auto simp: hasKing_iff)
  with chk have "attackScan b (opposite clr) (- 1) (- 1) allSquares = Some True"
    by (simp add: isKingInCheck_def)
  moreover have "\<not> inRange (- 1)" by (simp add: inRange_def)
  ultimately show False using attackScan_no_king[OF wf] by blast
qed

lemma isValidMove_not_own:
  assumes "isValidMove b fr fc tr tc = Some True" and "sq b fr fc = Some (Some pc)"
    and "sq b tr tc = Some (Some t)"
  shows "color t \<noteq> color pc"
  using assms by (auto simp: isValidMove_def)

lemma hasKing_tryMove:
  assumes wf: "wf_board b"
    and rng: "inRange fr" "inRange fc" "inRange tr" "inRange tc"
    and frm: "sq b fr fc = Some (Some pc)" and pc: "color pc = clr"
    and valid: "isValidMove b fr fc tr tc = Some True"
    and king: "hasKing b clr"
  shows "hasKing (tryMove b fr fc tr tc (Some pc)) clr"
proof -
  from king obtain kr kc s where k: "inRange kr" "inRange kc"
    and s: "sq b kr kc = Some s" "isKingOf clr s"
    by (auto simp: hasKing_iff set_allSquares)
  have ne: "\<not> (tr = fr \<and> tc = fc)" using valid isValidMove_same_never by blast
  note st = sq_tryMove[OF wf rng]
  show ?thesis
  proof (cases "kr = fr \<and> kc = fc")
    case True
    with s frm have "isKingOf clr (Some pc)" by simp
    moreover have "sq (tryMove b fr fc tr tc (Some pc)) tr tc = Some (Some pc)"
      using ne by (simp add: st)
    ultimately show ?thesis using rng by (auto simp: hasKing_iff set_allSquares)
  next
    case False
    have "\<not> (kr = tr \<and> kc = tc)"
    proof
      assume "kr = tr \<and> kc = tc"
      with s obtain t where "sq b tr tc = Some (Some t)" "color t = clr"
        by (auto simp: isKingOf_def split: option.splits)
      with isValidMove_not_own[OF valid frm] pc show False by simp
    qed
    with False have "sq (tryMove b fr fc tr tc (Some pc)) kr kc = Some s"
      using s by (auto simp: st)
    with k s show ?thesis by (auto simp: hasKing_iff set_allSquares)
  qed
qed

lemma isCheckmate_to_total:
  assumes wf: "wf_board b" and rng: "inRange fr" "inRange fc"
    and frm: "sq b fr fc = Some (Some pc)" and pc: "color pc = clr"
    and king: "hasKing b clr"
  shows "\<forall>(tr, tc) \<in> set ds. inRange tr \<and> inRange tc \<Longrightarrow>
         fst (isCheckmate_to b clr fr fc pc ds) \<noteq> None"
proof (induction ds)
  case Nil
  then show ?case by simp
next
  case (Cons d ds)
  obtain tr tc where d: "d = (tr, tc)" by (cases d)
  have trc: "inRange tr" "inRange tc" using Cons.prems(1) d by auto
  obtain orig where orig: "sq b tr tc = Some orig"
    using sq_row_Some[OF wf trc(1)] by blast
  have restore: "undoTry (tryMove b fr fc tr tc (Some pc)) fr fc tr tc (Some pc) orig = b"
    by (rule undoTry_tryMove[OF wf rng trc frm orig])
  from Cons.IH Cons.prems have IH: "fst (isCheckmate_to b clr fr fc pc ds) \<noteq> None" by simp
  obtain valid where valid: "isValidMove b fr fc tr tc = Some valid"
    using isValidMove_total[OF wf rng trc] by blast
  show ?case
  proof (cases valid)
    case False
    with valid IH d show ?thesis by simp
  next
    case True
    with valid have v: "isValidMove b fr fc tr tc = Some True" by simp
    have "isKingInCheck (tryMove b fr fc tr tc (Some pc)) clr \<noteq> None"
      by (rule isKingInCheck_total[OF wf_tryMove[OF wf] hasKing_tryMove[OF wf rng trc frm pc v king]])
    then obtain still where "isKingInCheck (tryMove b fr fc tr tc (Some pc)) clr = Some still"
      by blast
    with v orig restore IH d show ?thesis by (auto simp: Let_def)
  qed
qed

lemma isCheckmate_from_total:
  assumes wf: "wf_board b" and king: "hasKing b clr"
  shows "\<forall>(fr, fc) \<in> set os. inRange fr \<and> inRange fc \<Longrightarrow>
         fst (isCheckmate_from b clr os) \<noteq> None"
proof (induction os)
  case Nil
  then show ?case by simp
next
  case (Cons d os)
  obtain fr fc where d: "d = (fr, fc)" by (cases d)
  have rng: "inRange fr" "inRange fc" using Cons.prems(1) d by auto
  from Cons.IH Cons.prems have IH: "fst (isCheckmate_from b clr os) \<noteq> None" by simp
  obtain x where x: "sq b fr fc = Some x" using sq_row_Some[OF wf rng(1)] by blast
  show ?case
  proof (cases x)
    case None
    with x IH d show ?thesis by simp
  next
    case (Some pc)
    show ?thesis
    proof (cases "color pc = clr")
      case False
      with x Some IH d show ?thesis by simp
    next
      case True
      have frm: "sq b fr fc = Some (Some pc)" using x Some by simp
      obtain r b1 where r: "isCheckmate_to b clr fr fc pc allSquares = (r, b1)"
        by (cases "isCheckmate_to b clr fr fc pc allSquares")
      from isCheckmate_to_total[OF wf rng frm True king allSquares_inRange] r
      obtain esc where esc: "r = Some esc" by auto
      from isCheckmate_to_partial[OF wf rng frm allSquares_inRange r[unfolded esc]]
      have "b1 = b" by simp
      with r esc frm True IH d show ?thesis by auto
    qed
  qed
qed

lemma isCheckmate_total:
  assumes wf: "wf_board b" and chk: "isKingInCheck b clr \<noteq> None"
  shows "fst (isCheckmate b clr) \<noteq> None"
proof -
  from chk obtain inCheck where c: "isKingInCheck b clr = Some inCheck" by blast
  show ?thesis
  proof (cases inCheck)
    case False
    with c show ?thesis by (simp add: isCheckmate_def)
  next
    case True
    with c have "hasKing b clr" using isKingInCheck_True_hasKing[OF wf] by simp
    from isCheckmate_from_total[OF wf this allSquares_inRange]
    show ?thesis using c True by (auto simp: isCheckmate_def split: prod.splits)
  qed
qed

text \<open>On a well-formed board whose check query answers, \<open>isCheckmate\<close> returns, with
  the board as it was and the verdict of the specification.\<close>

lemma isCheckmate_correct:
  assumes wf: "wf_board b" and chk: "isKingInCheck b clr \<noteq> None"
  shows "isCheckmate b clr = (Some (isKingInCheck b clr = Some True \<and> \<not> canEscape b clr), b)"
proof -
  obtain r b' where r: "isCheckmate b clr = (r, b')" by (cases "isCheckmate b clr")
  with isCheckmate_total[OF wf chk] obtain v where v: "r = Some v" by auto
  from isCheckmate_partial[OF wf r[unfolded v]] r v show ?thesis by simp
qed

lemma getAllLegalMoves_to_total:
  assumes wf: "wf_board b" and rng: "inRange fr" "inRange fc"
    and frm: "sq b fr fc = Some (Some pc)" and pc: "color pc = clr"
    and king: "hasKing b clr"
  shows "\<forall>(tr, tc) \<in> set ds. inRange tr \<and> inRange tc \<Longrightarrow>
         fst (getAllLegalMoves_to b clr fr fc pc ds moves) \<noteq> None"
proof (induction ds arbitrary: moves)
  case Nil
  then show ?case by simp
next
  case (Cons d ds)
  obtain tr tc where d: "d = (tr, tc)" by (cases d)
  have trc: "inRange tr" "inRange tc" using Cons.prems(1) d by auto
  obtain orig where orig: "sq b tr tc = Some orig"
    using sq_row_Some[OF wf trc(1)] by blast
  have restore: "undoTry (tryMove b fr fc tr tc (Some pc)) fr fc tr tc (Some pc) orig = b"
    by (rule undoTry_tryMove[OF wf rng trc frm orig])
  from Cons.IH Cons.prems
  have IH: "\<And>moves. fst (getAllLegalMoves_to b clr fr fc pc ds moves) \<noteq> None" by simp
  obtain valid where valid: "isValidMove b fr fc tr tc = Some valid"
    using isValidMove_total[OF wf rng trc] by blast
  show ?case
  proof (cases valid)
    case False
    with valid IH d show ?thesis by simp
  next
    case True
    with valid have v: "isValidMove b fr fc tr tc = Some True" by simp
    have "isKingInCheck (tryMove b fr fc tr tc (Some pc)) clr \<noteq> None"
      by (rule isKingInCheck_total[OF wf_tryMove[OF wf] hasKing_tryMove[OF wf rng trc frm pc v king]])
    then obtain still where "isKingInCheck (tryMove b fr fc tr tc (Some pc)) clr = Some still"
      by blast
    with v orig restore IH d show ?thesis by (auto simp: Let_def)
  qed
qed

lemma getAllLegalMoves_from_total:
  assumes wf: "wf_board b" and king: "hasKing b clr"
  shows "\<forall>(fr, fc) \<in> set os. inRange fr \<and> inRange fc \<Longrightarrow>
         fst (getAllLegalMoves_from b clr os moves) \<noteq> None"
proof (induction os arbitrary: moves)
  case Nil
  then show ?case by simp
next
  case (Cons d os)
  obtain fr fc where d: "d = (fr, fc)" by (cases d)
  have rng: "inRange fr" "inRange fc" using Cons.prems(1) d by auto
  from Cons.IH Cons.prems
  have IH: "\<And>moves. fst (getAllLegalMoves_from b clr os moves) \<noteq> None" by simp
  obtain x where x: "sq b fr fc = Some x" using sq_row_Some[OF wf rng(1)] by blast
  show ?case
  proof (cases x)
    case None
    with x IH d show ?thesis by simp
  next
    case (Some pc)
    show ?thesis
    proof (cases "color pc = clr")
      case False
      with x Some IH d show ?thesis by simp
    next
      case True
      have frm: "sq b fr fc = Some (Some pc)" using x Some by simp
      obtain r b1 where r: "getAllLegalMoves_to b clr fr fc pc allSquares moves = (r, b1)"
        by (cases "getAllLegalMoves_to b clr fr fc pc allSquares moves")
      from getAllLegalMoves_to_total[OF wf rng frm True king allSquares_inRange, of moves] r
      obtain ms where ms: "r = Some ms" by auto
      from getAllLegalMoves_to_partial[OF wf rng frm True allSquares_inRange r[unfolded ms]]
      have "b1 = b" by simp
      with r ms frm True IH d show ?thesis by auto
    qed
  qed
qed

lemma getAllLegalMoves_correct:
  assumes wf: "wf_board b" and king: "hasKing b clr"
  shows "getAllLegalMoves b clr = (Some (legalMoves b clr), b)"
proof -
  obtain r b' where r: "getAllLegalMoves b clr = (r, b')" by (cases "getAllLegalMoves b clr")
  from getAllLegalMoves_from_total[OF wf king allSquares_inRange, of "[]"] r
  obtain ms where ms: "r = Some ms" by (auto simp: getAllLegalMoves_def)
  from getAllLegalMoves_partial[OF wf r[unfolded ms]] r ms show ?thesis by simp
qed

section \<open>The static evaluation\<close>

lemma oneKing_hasKing:
  assumes wf: "wf_board b" and one: "oneKing b clr"
  shows "hasKing b clr"
proof -
  from one have "filter (isKingOf clr) (concat b) \<noteq> []"
    by (auto simp: oneKing_def)
  then obtain s where "s \<in> set (concat b)" "isKingOf clr s"
    by (auto simp: filter_empty_conv)
  then obtain row where row: "row \<in> set b" "s \<in> set row" by auto
  then obtain i where i: "i < length b" "b ! i = row" by (auto simp: in_set_conv_nth)
  from row obtain j where j: "j < length row" "row ! j = s" by (auto simp: in_set_conv_nth)
  have ri: "inRange (int i)" using i wf by (simp add: wf_board_def inRange_def)
  have rj: "inRange (int j)" using j i wf_board_rows[OF wf ri] by (simp add: inRange_def)
  have "sq b (int i) (int j) = Some s" using i j by (simp add: sq_wf[OF wf ri rj])
  with ri rj \<open>isKingOf clr s\<close> show ?thesis
    by (auto simp: hasKing_iff set_allSquares)
qed

lemma getPieceValue_pieceValue: "getPieceValue k = pieceValue k"
  by (simp add: getPieceValue_def pieceValue_def)

lemma materialLoop_sum:
  assumes wf: "wf_board b"
  shows "\<forall>(r, c) \<in> set sqs. inRange r \<and> inRange c \<Longrightarrow>
         materialLoop b ai sqs score =
           Some (score + sum_list (map (\<lambda>(r, c). signedValue ai (b ! nat r ! nat c)) sqs))"
proof (induction sqs arbitrary: score)
  case Nil
  then show ?case by simp
next
  case (Cons d sqs)
  obtain r c where d: "d = (r, c)" by (cases d)
  have rc: "inRange r" "inRange c" using Cons.prems d by auto
  note x = sq_wf[OF wf rc]
  from Cons.IH Cons.prems
  have IH: "\<And>score. materialLoop b ai sqs score =
           Some (score + sum_list (map (\<lambda>(r, c). signedValue ai (b ! nat r ! nat c)) sqs))"
    by simp
  show ?case
    using x d IH
    by (cases "b ! nat r ! nat c")
      (simp_all add: signedValue_def getPieceValue_pieceValue Let_def)
qed

lemma upto_0_7: "[0..7] = map int [0..<8]"
  by code_simp

lemma squares_concat:
  assumes wf: "wf_board b"
  shows "map (\<lambda>(r, c). b ! nat r ! nat c) allSquares = concat b"
proof -
  have rows: "\<And>i. i < 8 \<Longrightarrow> map (\<lambda>j. b ! i ! j) [0..<8] = b ! i"
  proof -
    fix i :: nat assume "i < 8"
    then have "length (b ! i) = 8"
      using wf_board_rows[OF wf, of "int i"] by (simp add: inRange_def)
    then show "map (\<lambda>j. b ! i ! j) [0..<8] = b ! i"
      using map_nth[of "b ! i"] by simp
  qed
  have "map (\<lambda>(r, c). b ! nat r ! nat c) allSquares =
        concat (map (\<lambda>i. map (\<lambda>j. b ! i ! j) [0..<8]) [0..<8])"
    by (simp add: allSquares_def upto_0_7 map_concat comp_def)
  also have "\<dots> = concat (map (\<lambda>i. b ! i) [0..<8])"
    using rows by (intro arg_cong[where f = concat] map_cong) auto
  also have "\<dots> = concat b"
    using wf map_nth[of b] by (simp add: wf_board_def)
  finally show ?thesis .
qed

lemma materialLoop_material:
  assumes wf: "wf_board b"
  shows "materialLoop b ai allSquares 0 = Some (material b ai)"
proof -
  have "sum_list (map (\<lambda>(r, c). signedValue ai (b ! nat r ! nat c)) allSquares) =
        sum_list (map (signedValue ai) (map (\<lambda>(r, c). b ! nat r ! nat c) allSquares))"
    by (simp add: comp_def case_prod_unfold)
  then show ?thesis
    using materialLoop_sum[OF wf allSquares_inRange, of ai 0]
    by (simp add: squares_concat[OF wf] material_def)
qed

lemma evaluatePosition_correct:
  assumes wf: "wf_board b"
    and opp: "isKingInCheck b (opposite ai) \<noteq> None" and own: "isKingInCheck b ai \<noteq> None"
  shows "evaluatePosition b ai =
           (Some (material b ai
                  + (if inCheck b (opposite ai)
                     then 50 + (if checkmated b (opposite ai) then 1000 else 0) else 0)
                  - (if inCheck b ai
                     then 50 + (if checkmated b ai then 1000 else 0) else 0)), b)"
proof -
  have o: "(if ai = White then Black else White) = opposite ai" by (simp add: opposite_def)
  from opp obtain co where co: "isKingInCheck b (opposite ai) = Some co" by blast
  from own obtain ca where ca: "isKingInCheck b ai = Some ca" by blast
  note m1 = isCheckmate_correct[OF wf opp] and m2 = isCheckmate_correct[OF wf own]
  show ?thesis
    using co ca
    by (cases co; cases ca)
      (simp_all add: evaluatePosition_def materialLoop_material[OF wf] o m1 m2
        inCheck_def checkmated_def)
qed

lemma evaluatePosition_board:
  assumes wf: "wf_board b"
  shows "snd (evaluatePosition b ai) = b"
proof -
  have o: "(if ai = White then Black else White) = opposite ai" by (simp add: opposite_def)
  show ?thesis
  proof (cases "isKingInCheck b (opposite ai)")
    case None
    then show ?thesis by (simp add: evaluatePosition_def materialLoop_material[OF wf] o)
  next
    case (Some co)
    then have opp: "isKingInCheck b (opposite ai) \<noteq> None" by simp
    show ?thesis
    proof (cases "isKingInCheck b ai")
      case None
      with Some show ?thesis
        by (cases co)
          (simp_all add: evaluatePosition_def materialLoop_material[OF wf] o
            isCheckmate_correct[OF wf opp])
    next
      case (Some ca)
      then have "isKingInCheck b ai \<noteq> None" by simp
      from evaluatePosition_correct[OF wf opp this] show ?thesis by simp
    qed
  qed
qed

section \<open>The search restores the board\<close>

lemma legalMoves_inRange: "\<forall>m \<in> set (legalMoves b clr). moveInRange m"
  using allSquares_inRange by (fastforce simp: legalMoves_def moveInRange_def)

lemma maxLoop_frame:
  assumes child: "\<And>bb a be v b'. wf_board bb \<Longrightarrow> child bb a be = (Some v, b') \<Longrightarrow> b' = bb"
    and wf: "wf_board b"
  shows "\<forall>m \<in> set ms. moveInRange m \<Longrightarrow>
         maxLoop child b ms maxEval alpha beta = (Some v, b') \<Longrightarrow> b' = b"
proof (induction ms arbitrary: maxEval alpha)
  case Nil
  then show ?case by simp
next
  case (Cons m ms)
  have rng: "inRange (fromRow m)" "inRange (fromCol m)" "inRange (toRow m)" "inRange (toCol m)"
    using Cons.prems(1) by (simp_all add: moveInRange_def)
  obtain orig where orig: "sq b (toRow m) (toCol m) = Some orig"
    using sq_row_Some[OF wf rng(3)] by blast
  obtain mp where mp: "sq b (fromRow m) (fromCol m) = Some mp"
    using sq_row_Some[OF wf rng(1)] by blast
  let ?b1 = "tryMove b (fromRow m) (fromCol m) (toRow m) (toCol m) mp"
  have restore: "undoTry ?b1 (fromRow m) (fromCol m) (toRow m) (toCol m) mp orig = b"
    by (rule undoTry_tryMove[OF wf rng mp orig])
  obtain r b2 where r: "child ?b1 alpha beta = (r, b2)" by (cases "child ?b1 alpha beta")
  have rest: "\<forall>m \<in> set ms. moveInRange m" using Cons.prems(1) by simp
  show ?case
  proof (cases r)
    case None
    with r orig mp Cons.prems(2) show ?thesis by (simp add: Let_def)
  next
    case (Some ev)
    with r child[OF wf_tryMove[OF wf]] have "b2 = ?b1" by blast
    with r Some orig mp restore Cons.prems(2) Cons.IH[OF rest] show ?thesis
      by (auto simp: Let_def split: if_splits)
  qed
qed

lemma minLoop_frame:
  assumes child: "\<And>bb a be v b'. wf_board bb \<Longrightarrow> child bb a be = (Some v, b') \<Longrightarrow> b' = bb"
    and wf: "wf_board b"
  shows "\<forall>m \<in> set ms. moveInRange m \<Longrightarrow>
         minLoop child b ms minEval alpha beta = (Some v, b') \<Longrightarrow> b' = b"
proof (induction ms arbitrary: minEval beta)
  case Nil
  then show ?case by simp
next
  case (Cons m ms)
  have rng: "inRange (fromRow m)" "inRange (fromCol m)" "inRange (toRow m)" "inRange (toCol m)"
    using Cons.prems(1) by (simp_all add: moveInRange_def)
  obtain orig where orig: "sq b (toRow m) (toCol m) = Some orig"
    using sq_row_Some[OF wf rng(3)] by blast
  obtain mp where mp: "sq b (fromRow m) (fromCol m) = Some mp"
    using sq_row_Some[OF wf rng(1)] by blast
  let ?b1 = "tryMove b (fromRow m) (fromCol m) (toRow m) (toCol m) mp"
  have restore: "undoTry ?b1 (fromRow m) (fromCol m) (toRow m) (toCol m) mp orig = b"
    by (rule undoTry_tryMove[OF wf rng mp orig])
  obtain r b2 where r: "child ?b1 alpha beta = (r, b2)" by (cases "child ?b1 alpha beta")
  have rest: "\<forall>m \<in> set ms. moveInRange m" using Cons.prems(1) by simp
  show ?case
  proof (cases r)
    case None
    with r orig mp Cons.prems(2) show ?thesis by (simp add: Let_def)
  next
    case (Some ev)
    with r child[OF wf_tryMove[OF wf]] have "b2 = ?b1" by blast
    with r Some orig mp restore Cons.prems(2) Cons.IH[OF rest] show ?thesis
      by (auto simp: Let_def split: if_splits)
  qed
qed

lemma minimax_frame:
  "wf_board b \<Longrightarrow> minimax b over d alpha beta isMax ai = (Some v, b') \<Longrightarrow> b' = b"
proof (induction d arbitrary: b alpha beta isMax v b')
  case 0
  then show ?case
    using evaluatePosition_board[of b ai] by (auto split: prod.splits)
next
  case (Suc d)
  note wf = Suc.prems(1)
  show ?case
  proof (cases over)
    case True
    with Suc.prems show ?thesis
      using evaluatePosition_board[of b ai] by (auto split: prod.splits)
  next
    case False
    let ?cur = "if isMax then ai else (if ai = White then Black else White)"
    obtain r b1 where r: "getAllLegalMoves b ?cur = (r, b1)"
      by (cases "getAllLegalMoves b ?cur")
    show ?thesis
    proof (cases r)
      case None
      with r False Suc.prems(2) show ?thesis by (simp add: Let_def)
    next
      case (Some moves)
      from getAllLegalMoves_partial[OF wf r[unfolded Some]]
      have b1: "b1 = b" and moves: "moves = legalMoves b ?cur" by simp_all
      have inr: "\<forall>m \<in> set moves. moveInRange m" using moves legalMoves_inRange by simp
      show ?thesis
      proof (cases "moves = []")
        case True
        with r Some False b1 Suc.prems(2) show ?thesis
          by (auto simp: Let_def split: option.splits)
      next
        case nonempty: False
        show ?thesis
        proof (cases isMax)
          case True
          with r Some False b1 nonempty Suc.prems(2)
          have "maxLoop (\<lambda>bb a be. minimax bb over d a be False ai) b moves NegInf alpha beta
                  = (Some v, b')" by (simp add: Let_def)
          from maxLoop_frame[OF _ wf inr this] Suc.IH show ?thesis by blast
        next
          case notmax: False
          with r Some False b1 nonempty Suc.prems(2)
          have "minLoop (\<lambda>bb a be. minimax bb over d a be True ai) b moves PosInf alpha beta
                  = (Some v, b')" by (simp add: Let_def)
          from minLoop_frame[OF _ wf inr this] Suc.IH show ?thesis by blast
        qed
      qed
    qed
  qed
qed

lemma scoreMoves_frame:
  assumes wf: "wf_board b"
  shows "\<forall>m \<in> set ms. moveInRange m \<Longrightarrow>
         scoreMoves b ai ms scored = (Some res, b') \<Longrightarrow>
         b' = b \<and> length res = length scored + length ms"
proof (induction ms arbitrary: scored)
  case Nil
  then show ?case by simp
next
  case (Cons m ms)
  have rng: "inRange (fromRow m)" "inRange (fromCol m)" "inRange (toRow m)" "inRange (toCol m)"
    using Cons.prems(1) by (simp_all add: moveInRange_def)
  obtain orig where orig: "sq b (toRow m) (toCol m) = Some orig"
    using sq_row_Some[OF wf rng(3)] by blast
  obtain mp where mp: "sq b (fromRow m) (fromCol m) = Some mp"
    using sq_row_Some[OF wf rng(1)] by blast
  let ?b1 = "tryMove b (fromRow m) (fromCol m) (toRow m) (toCol m) mp"
  have restore: "undoTry ?b1 (fromRow m) (fromCol m) (toRow m) (toCol m) mp orig = b"
    by (rule undoTry_tryMove[OF wf rng mp orig])
  have rest: "\<forall>m \<in> set ms. moveInRange m" using Cons.prems(1) by simp
  show ?case
  proof (cases "isKingInCheck ?b1 (if ai = White then Black else White)")
    case None
    with orig mp Cons.prems(2) show ?thesis by (simp add: Let_def)
  next
    case (Some chk)
    with orig mp restore Cons.prems(2) Cons.IH[OF rest] show ?thesis
      by (auto simp: Let_def split: if_splits)
  qed
qed

lemma getMediumMove_frame:
  assumes wf: "wf_board b" and res: "getMediumMove b ai pickBest idx = (Some mv, b')"
  shows "b' = b"
proof -
  obtain r b1 where r: "getAllLegalMoves b ai = (r, b1)" by (cases "getAllLegalMoves b ai")
  show ?thesis
  proof (cases r)
    case None
    with r res show ?thesis by (simp add: getMediumMove_def)
  next
    case (Some moves)
    from getAllLegalMoves_partial[OF wf r[unfolded Some]]
    have b1: "b1 = b" and moves: "moves = legalMoves b ai" by simp_all
    have inr: "\<forall>m \<in> set moves. moveInRange m" using moves legalMoves_inRange by simp
    obtain s b2 where s: "scoreMoves b ai moves [] = (s, b2)"
      by (cases "scoreMoves b ai moves []")
    show ?thesis
    proof (cases s)
      case None
      with r Some b1 s res show ?thesis
        by (auto simp: getMediumMove_def split: if_splits)
    next
      case scored: (Some sc)
      from scoreMoves_frame[OF wf inr s[unfolded scored]] have "b2 = b" by simp
      with r Some b1 s scored res show ?thesis
        by (auto simp: getMediumMove_def Let_def split: if_splits list.splits)
    qed
  qed
qed

section \<open>The move and its record\<close>

lemma movePiece_result:
  assumes wf: "wf_board (board g)"
    and frm: "sq (board g) fr fc = Some (Some pc)" and dst: "sq (board g) tr tc = Some captured"
  shows "snd (movePiece g fr fc tr tc) = afterMove g fr fc tr tc pc captured \<and>
         (fst (movePiece g fr fc tr tc) = None) =
           (isKingInCheck (board (afterMove g fr fc tr tc pc captured))
              (currentPlayer (afterMove g fr fc tr tc pc captured)) = None)"
proof -
  let ?promoted = "if ptype pc = Pawn \<and> (tr = 0 \<or> tr = 7) then pc\<lparr>ptype := Queen\<rparr> else pc"
  let ?b = "put (put (board g) tr tc (Some ?promoted)) fr fc None"
  let ?n = "if currentPlayer g = White then Black else White"
  have wf': "wf_board ?b" by (intro wf_put wf)
  show ?thesis
  proof (cases "isKingInCheck ?b ?n")
    case None
    then show ?thesis
      using frm dst
      by (cases g) (simp add: movePiece_def afterMove_def Let_def checkmated_def inCheck_def)
  next
    case (Some chk)
    then have "isKingInCheck ?b ?n \<noteq> None" by simp
    note mate = isCheckmate_correct[OF wf' this]
    show ?thesis
      using frm dst Some mate
      by (cases g; cases chk)
        (simp_all add: movePiece_def afterMove_def Let_def checkmated_def inCheck_def)
  qed
qed

lemma undo_writes:
  assumes wf: "wf_board b"
    and rng: "inRange fr" "inRange fc" "inRange tr" "inRange tc"
    and frm: "sq b fr fc = Some (Some pc)" and dst: "sq b tr tc = Some captured"
  shows "put (put (put (put b tr tc (Some promoted)) fr fc None) fr fc (Some pc)) tr tc captured = b"
proof (rule board_ext)
  show "wf_board (put (put (put (put b tr tc (Some promoted)) fr fc None) fr fc (Some pc))
          tr tc captured)"
    by (intro wf_put wf)
  show "wf_board b" by (rule wf)
next
  fix r c assume "inRange r" "inRange c"
  show "sq (put (put (put (put b tr tc (Some promoted)) fr fc None) fr fc (Some pc))
          tr tc captured) r c = sq b r c"
    using wf rng frm dst by (auto simp: sq_put wf_put)
qed

lemma undoStep_afterMove:
  assumes wf: "wf_board (board g)"
    and rng: "inRange fr" "inRange fc" "inRange tr" "inRange tc"
    and frm: "sq (board g) fr fc = Some (Some pc)" and dst: "sq (board g) tr tc = Some captured"
  shows "undoStep (afterMove g fr fc tr tc pc captured) =
           g\<lparr>gameOver := gameOver (afterMove g fr fc tr tc pc captured)\<rparr>"
  using undo_writes[OF wf rng frm dst]
  by (cases g; cases "currentPlayer g") (auto simp: undoStep_def afterMove_def Let_def)

section \<open>The selector returns a move unless it raises\<close>

lemma getAllLegalMoves_empty_iff:
  assumes "wf_board b" and "hasKing b clr"
  shows "(fst (getAllLegalMoves b clr) = Some []) = (legalMoves b clr = [])"
  using getAllLegalMoves_correct[OF assms] by simp

lemma num_max_Fin: "m \<noteq> PosInf \<Longrightarrow> \<exists>k. num_max m (Fin n) = Fin k"
  by (cases m) (simp_all add: num_max_def)

lemma num_min_Fin: "m \<noteq> NegInf \<Longrightarrow> \<exists>k. num_min m (Fin n) = Fin k"
  by (cases m) (simp_all add: num_min_def)

lemma maxLoop_finite:
  assumes child: "\<And>bb a be v b'. child bb a be = (Some v, b') \<Longrightarrow> \<exists>n. v = Fin n"
  shows "maxLoop child b ms maxEval alpha beta = (Some v, b') \<Longrightarrow> maxEval \<noteq> PosInf \<Longrightarrow>
         ms \<noteq> [] \<or> (\<exists>n. maxEval = Fin n) \<Longrightarrow> \<exists>n. v = Fin n"
proof (induction ms arbitrary: b maxEval alpha)
  case Nil
  then show ?case by simp
next
  case (Cons m ms)
  from Cons.prems(1) obtain orig mp ev b2
    where c: "child (tryMove b (fromRow m) (fromCol m) (toRow m) (toCol m) mp) alpha beta
                = (Some ev, b2)"
      and r: "(if num_le beta (num_max alpha ev)
               then (Some (num_max maxEval ev),
                     undoTry b2 (fromRow m) (fromCol m) (toRow m) (toCol m) mp orig)
               else maxLoop child (undoTry b2 (fromRow m) (fromCol m) (toRow m) (toCol m) mp orig)
                      ms (num_max maxEval ev) (num_max alpha ev) beta) = (Some v, b')"
    by (auto simp: Let_def split: option.splits prod.splits)
  from child[OF c] obtain n where ev: "ev = Fin n" by blast
  from num_max_Fin[OF Cons.prems(2), of n] obtain k where k: "num_max maxEval ev = Fin k"
    using ev by blast
  show ?case
  proof (cases "num_le beta (num_max alpha ev)")
    case True
    with r k have "v = Fin k" by auto
    then show ?thesis by blast
  next
    case False
    with r have "maxLoop child (undoTry b2 (fromRow m) (fromCol m) (toRow m) (toCol m) mp orig)
                      ms (Fin k) (num_max alpha ev) beta = (Some v, b')" using k by simp
    from Cons.IH[OF this] show ?thesis by simp
  qed
qed

lemma minLoop_finite:
  assumes child: "\<And>bb a be v b'. child bb a be = (Some v, b') \<Longrightarrow> \<exists>n. v = Fin n"
  shows "minLoop child b ms minEval alpha beta = (Some v, b') \<Longrightarrow> minEval \<noteq> NegInf \<Longrightarrow>
         ms \<noteq> [] \<or> (\<exists>n. minEval = Fin n) \<Longrightarrow> \<exists>n. v = Fin n"
proof (induction ms arbitrary: b minEval beta)
  case Nil
  then show ?case by simp
next
  case (Cons m ms)
  from Cons.prems(1) obtain orig mp ev b2
    where c: "child (tryMove b (fromRow m) (fromCol m) (toRow m) (toCol m) mp) alpha beta
                = (Some ev, b2)"
      and r: "(if num_le (num_min beta ev) alpha
               then (Some (num_min minEval ev),
                     undoTry b2 (fromRow m) (fromCol m) (toRow m) (toCol m) mp orig)
               else minLoop child (undoTry b2 (fromRow m) (fromCol m) (toRow m) (toCol m) mp orig)
                      ms (num_min minEval ev) alpha (num_min beta ev)) = (Some v, b')"
    by (auto simp: Let_def split: option.splits prod.splits)
  from child[OF c] obtain n where ev: "ev = Fin n" by blast
  from num_min_Fin[OF Cons.prems(2), of n] obtain k where k: "num_min minEval ev = Fin k"
    using ev by blast
  show ?case
  proof (cases "num_le (num_min beta ev) alpha")
    case True
    with r k have "v = Fin k" by auto
    then show ?thesis by blast
  next
    case False
    with r have "minLoop child (undoTry b2 (fromRow m) (fromCol m) (toRow m) (toCol m) mp orig)
                      ms (Fin k) alpha (num_min beta ev) = (Some v, b')" using k by simp
    from Cons.IH[OF this] show ?thesis by simp
  qed
qed

lemma minimax_finite:
  "minimax b over d alpha beta isMax ai = (Some v, b') \<Longrightarrow> \<exists>n. v = Fin n"
proof (induction d arbitrary: b alpha beta isMax v b')
  case 0
  then show ?case by (auto split: prod.splits)
next
  case (Suc d)
  show ?case
  proof (cases over)
    case True
    with Suc.prems show ?thesis by (auto split: prod.splits)
  next
    case False
    let ?cur = "if isMax then ai else (if ai = White then Black else White)"
    from Suc.prems False obtain moves b1 where g: "getAllLegalMoves b ?cur = (Some moves, b1)"
      by (auto simp: Let_def split: prod.splits option.splits)
    show ?thesis
    proof (cases "moves = []")
      case True
      with g False Suc.prems show ?thesis
        by (auto simp: Let_def split: option.splits if_splits)
    next
      case nonempty: False
      show ?thesis
      proof (cases isMax)
        case True
        with g False nonempty Suc.prems
        have "maxLoop (\<lambda>bb a be. minimax bb over d a be False ai) b1 moves NegInf alpha beta
                = (Some v, b')" by (simp add: Let_def)
        from maxLoop_finite[OF _ this] Suc.IH nonempty show ?thesis by blast
      next
        case notmax: False
        with g False nonempty Suc.prems
        have "minLoop (\<lambda>bb a be. minimax bb over d a be True ai) b1 moves PosInf alpha beta
                = (Some v, b')" by (simp add: Let_def)
        from minLoop_finite[OF _ this] Suc.IH nonempty show ?thesis by blast
      qed
    qed
  qed
qed

lemma getHardMove_loop_move:
  "getHardMove_loop b over ai ms bestMove bestScore = (Some r, b') \<Longrightarrow>
   (bestMove = None \<longrightarrow> bestScore = NegInf) \<Longrightarrow> ms \<noteq> [] \<or> bestMove \<noteq> None \<Longrightarrow> r \<noteq> None"
proof (induction ms arbitrary: b bestMove bestScore)
  case Nil
  then show ?case by simp
next
  case (Cons m ms)
  from Cons.prems(1) obtain orig mp score b2
    where c: "minimax (tryMove b (fromRow m) (fromCol m) (toRow m) (toCol m) mp) over 3
                NegInf PosInf False ai = (Some score, b2)"
      and r: "(if \<not> num_le score bestScore
               then getHardMove_loop (undoTry b2 (fromRow m) (fromCol m) (toRow m) (toCol m) mp orig)
                      over ai ms (Some m) score
               else getHardMove_loop (undoTry b2 (fromRow m) (fromCol m) (toRow m) (toCol m) mp orig)
                      over ai ms bestMove bestScore) = (Some r, b')"
    by (auto simp: Let_def split: option.splits prod.splits)
  from minimax_finite[OF c] obtain n where n: "score = Fin n" by blast
  show ?case
  proof (cases "num_le score bestScore")
    case False
    with r have "getHardMove_loop (undoTry b2 (fromRow m) (fromCol m) (toRow m) (toCol m) mp orig)
                      over ai ms (Some m) score = (Some r, b')" by simp
    from Cons.IH[OF this] show ?thesis by simp
  next
    case True
    with n have "bestScore \<noteq> NegInf" by (cases bestScore) auto
    with Cons.prems(2) have bm: "bestMove \<noteq> None" by blast
    from True r
    have "getHardMove_loop (undoTry b2 (fromRow m) (fromCol m) (toRow m) (toCol m) mp orig)
                      over ai ms bestMove bestScore = (Some r, b')" by simp
    from Cons.IH[OF this] bm show ?thesis by simp
  qed
qed

text \<open>
  Whenever the selector returns (and the random index is below the number of moves, as
  \<open>Math.floor(Math.random() * moves.length)\<close> is), it returns \<open>null\<close> if the side has no
  legal move and a move otherwise.
\<close>

lemma getBestMove_returns:
  assumes wf: "wf_board b"
    and res: "fst (getBestMove difficulty b over clr pickBest randomIndex) = Some r"
    and idx: "legalMoves b clr = [] \<or> randomIndex < length (legalMoves b clr)"
  shows "(r = None) = (legalMoves b clr = [])"
proof -
  obtain g b1 where g: "getAllLegalMoves b clr = (g, b1)" by (cases "getAllLegalMoves b clr")
  have "g \<noteq> None"
    using res g
    by (cases difficulty; cases g)
      (auto simp: getBestMove_def getRandomMove_def getMediumMove_def getHardMove_def)
  then obtain moves where moves: "g = Some moves" by blast
  from getAllLegalMoves_partial[OF wf g[unfolded moves]]
  have b1: "b1 = b" and lm: "moves = legalMoves b clr" by simp_all
  have rnd: "fst (getRandomMove b clr randomIndex) = Some r \<Longrightarrow> ?thesis"
    using g moves lm idx by (auto simp: getRandomMove_def split: if_splits)
  show ?thesis
  proof (cases difficulty)
    case Easy
    with res rnd show ?thesis by (simp add: getBestMove_def)
  next
    case Other
    with res rnd show ?thesis by (simp add: getBestMove_def)
  next
    case Medium
    show ?thesis
    proof (cases "moves = []")
      case True
      with Medium res g moves lm show ?thesis by (auto simp: getBestMove_def getMediumMove_def)
    next
      case False
      with Medium res g moves b1 obtain scored b2
        where s: "scoreMoves b clr moves [] = (Some scored, b2)"
        by (auto simp: getBestMove_def getMediumMove_def split: option.splits prod.splits)
      from scoreMoves_frame[OF wf _ s] lm legalMoves_inRange
      have "length scored = length moves" by simp
      with False have "sort_key (\<lambda>sm. - snd sm) scored \<noteq> []"
        by (metis length_0_conv length_sort)
      with Medium res g moves b1 s False lm idx show ?thesis
        by (auto simp: getBestMove_def getMediumMove_def Let_def split: list.splits if_splits)
    qed
  next
    case Hard
    show ?thesis
    proof (cases "moves = []")
      case True
      with Hard res g moves lm show ?thesis by (auto simp: getBestMove_def getHardMove_def)
    next
      case False
      with Hard res g moves b1
      obtain b2 where "getHardMove_loop b over clr moves None NegInf = (Some r, b2)"
        by (cases "getHardMove_loop b over clr moves None NegInf")
          (auto simp: getBestMove_def getHardMove_def)
      from getHardMove_loop_move[OF this] False lm show ?thesis by simp
    qed
  qed
qed

section \<open>The search returns on a playable position\<close>

lemma opposite_opposite: "opposite (opposite clr) = clr"
  by (cases clr) (simp_all add: opposite_def)

lemma opposite_ne: "opposite clr \<noteq> clr"
  by (cases clr) (simp_all add: opposite_def)

lemma hasKing_both: "hasKing b White \<Longrightarrow> hasKing b Black \<Longrightarrow> hasKing b clr"
  by (cases clr) simp_all

lemma attackScan_False:
  "attackScan b opp kr kc sqs = Some False \<Longrightarrow> (r, c) \<in> set sqs \<Longrightarrow>
   sq b r c = Some (Some pc) \<Longrightarrow> color pc = opp \<Longrightarrow> isValidMove b r c kr kc = Some False"
proof (induction sqs)
  case Nil
  then show ?case by simp
next
  case (Cons d sqs)
  obtain r' c' where d: "d = (r', c')" by (cases d)
  show ?case
  proof (cases "(r, c) = (r', c')")
    case True
    with Cons.prems d show ?thesis
      by (auto split: option.splits if_splits)
  next
    case False
    with Cons.prems d have "(r, c) \<in> set sqs" by auto
    moreover from Cons.prems(1) d have "attackScan b opp kr kc sqs = Some False"
      by (auto split: option.splits if_splits)
    ultimately show ?thesis using Cons.IH Cons.prems(3,4) by blast
  qed
qed

text \<open>A move of the side to move cannot take a king that is not in check.\<close>

lemma hasKing_opponent_tryMove:
  assumes wf: "wf_board b"
    and rng: "inRange fr" "inRange fc" "inRange tr" "inRange tc"
    and frm: "sq b fr fc = Some (Some pc)" and pc: "color pc = clr"
    and valid: "isValidMove b fr fc tr tc = Some True"
    and king: "hasKing b (opposite clr)"
    and safe: "isKingInCheck b (opposite clr) = Some False"
  shows "hasKing (tryMove b fr fc tr tc (Some pc)) (opposite clr)"
proof -
  from findKing_cases[OF wf allSquares_inRange, of "opposite clr"] king
  obtain kr kc s where f: "findKing b (opposite clr) allSquares = Some (kr, kc)"
    and k: "(kr, kc) \<in> set allSquares" and s: "sq b kr kc = Some s" "isKingOf (opposite clr) s"
    by (auto simp: hasKing_iff)
  from safe f have scan: "attackScan b clr kr kc allSquares = Some False"
    by (simp add: isKingInCheck_def opposite_opposite)
  have "(fr, fc) \<in> set allSquares" using rng by (simp add: set_allSquares)
  from attackScan_False[OF scan this frm pc] valid have nt: "\<not> (kr = tr \<and> kc = tc)" by auto
  have nf: "\<not> (kr = fr \<and> kc = fc)"
    using s frm pc opposite_ne[of clr] by (auto simp: isKingOf_def)
  have "sq (tryMove b fr fc tr tc (Some pc)) kr kc = Some s"
    using nt nf s by (auto simp: sq_tryMove[OF wf rng])
  with k s show ?thesis by (auto simp: hasKing_iff)
qed

lemma legalMoves_legal:
  assumes "m \<in> set (legalMoves b clr)"
  shows "moveInRange m \<and> legalMove b clr (fromRow m) (fromCol m) (toRow m) (toCol m)"
  using assms allSquares_inRange
  by (fastforce simp: legalMoves_def moveInRange_def)

text \<open>After a legal move of the side to move, the position is playable for the other.\<close>

lemma playable_after_legal:
  assumes p: "playable b clr"
    and rng: "inRange fr" "inRange fc" "inRange tr" "inRange tc"
    and legal: "legalMove b clr fr fc tr tc"
    and mp: "sq b fr fc = Some mp"
  shows "playable (tryMove b fr fc tr tc mp) (opposite clr)"
proof -
  from p have wf: "wf_board b" and kw: "hasKing b White" and kb: "hasKing b Black"
    and safe: "isKingInCheck b (opposite clr) = Some False"
    by (simp_all add: playable_def)
  from legal mp obtain pc where pc: "mp = Some pc" "color pc = clr"
    and valid: "isValidMove b fr fc tr tc = Some True"
    and own: "isKingInCheck (tryMove b fr fc tr tc (Some pc)) clr = Some False"
    by (auto simp: legalMove_def split: option.splits)
  have frm: "sq b fr fc = Some (Some pc)" using mp pc by simp
  have k1: "hasKing (tryMove b fr fc tr tc (Some pc)) clr"
    by (rule hasKing_tryMove[OF wf rng frm pc(2) valid hasKing_both[OF kw kb]])
  have k2: "hasKing (tryMove b fr fc tr tc (Some pc)) (opposite clr)"
    by (rule hasKing_opponent_tryMove[OF wf rng frm pc(2) valid hasKing_both[OF kw kb] safe])
  have "hasKing (tryMove b fr fc tr tc (Some pc)) White \<and>
        hasKing (tryMove b fr fc tr tc (Some pc)) Black"
    using k1 k2 by (cases clr) (simp_all add: opposite_def)
  with own wf show ?thesis
    by (simp add: playable_def pc wf_tryMove opposite_opposite)
qed

lemma maxLoop_total:
  assumes frame: "\<And>bb a be v b'. wf_board bb \<Longrightarrow> child bb a be = (Some v, b') \<Longrightarrow> b' = bb"
    and wf: "wf_board b"
    and total: "\<And>m a be mp. m \<in> set ms \<Longrightarrow> sq b (fromRow m) (fromCol m) = Some mp \<Longrightarrow>
        fst (child (tryMove b (fromRow m) (fromCol m) (toRow m) (toCol m) mp) a be) \<noteq> None"
  shows "\<forall>m \<in> set ms. moveInRange m \<Longrightarrow>
         fst (maxLoop child b ms maxEval alpha beta) \<noteq> None"
  using total
proof (induction ms arbitrary: maxEval alpha)
  case Nil
  then show ?case by simp
next
  case (Cons m ms)
  have rng: "inRange (fromRow m)" "inRange (fromCol m)" "inRange (toRow m)" "inRange (toCol m)"
    using Cons.prems(1) by (simp_all add: moveInRange_def)
  obtain orig where orig: "sq b (toRow m) (toCol m) = Some orig"
    using sq_row_Some[OF wf rng(3)] by blast
  obtain mp where mp: "sq b (fromRow m) (fromCol m) = Some mp"
    using sq_row_Some[OF wf rng(1)] by blast
  let ?b1 = "tryMove b (fromRow m) (fromCol m) (toRow m) (toCol m) mp"
  have restore: "undoTry ?b1 (fromRow m) (fromCol m) (toRow m) (toCol m) mp orig = b"
    by (rule undoTry_tryMove[OF wf rng mp orig])
  obtain r b2 where r: "child ?b1 alpha beta = (r, b2)" by (cases "child ?b1 alpha beta")
  from Cons.prems(2)[of m mp alpha beta] mp r obtain ev where ev: "r = Some ev" by auto
  with r frame[OF wf_tryMove[OF wf]] have b2: "b2 = ?b1" by blast
  have IH: "\<And>maxEval alpha. fst (maxLoop child b ms maxEval alpha beta) \<noteq> None"
    using Cons.IH Cons.prems by simp
  show ?case
    using orig mp r ev b2 restore IH by (auto simp: Let_def)
qed

lemma minLoop_total:
  assumes frame: "\<And>bb a be v b'. wf_board bb \<Longrightarrow> child bb a be = (Some v, b') \<Longrightarrow> b' = bb"
    and wf: "wf_board b"
    and total: "\<And>m a be mp. m \<in> set ms \<Longrightarrow> sq b (fromRow m) (fromCol m) = Some mp \<Longrightarrow>
        fst (child (tryMove b (fromRow m) (fromCol m) (toRow m) (toCol m) mp) a be) \<noteq> None"
  shows "\<forall>m \<in> set ms. moveInRange m \<Longrightarrow>
         fst (minLoop child b ms minEval alpha beta) \<noteq> None"
  using total
proof (induction ms arbitrary: minEval beta)
  case Nil
  then show ?case by simp
next
  case (Cons m ms)
  have rng: "inRange (fromRow m)" "inRange (fromCol m)" "inRange (toRow m)" "inRange (toCol m)"
    using Cons.prems(1) by (simp_all add: moveInRange_def)
  obtain orig where orig: "sq b (toRow m) (toCol m) = Some orig"
    using sq_row_Some[OF wf rng(3)] by blast
  obtain mp where mp: "sq b (fromRow m) (fromCol m) = Some mp"
    using sq_row_Some[OF wf rng(1)] by blast
  let ?b1 = "tryMove b (fromRow m) (fromCol m) (toRow m) (toCol m) mp"
  have restore: "undoTry ?b1 (fromRow m) (fromCol m) (toRow m) (toCol m) mp orig = b"
    by (rule undoTry_tryMove[OF wf rng mp orig])
  obtain r b2 where r: "child ?b1 alpha beta = (r, b2)" by (cases "child ?b1 alpha beta")
  from Cons.prems(2)[of m mp alpha beta] mp r obtain ev where ev: "r = Some ev" by auto
  with r frame[OF wf_tryMove[OF wf]] have b2: "b2 = ?b1" by blast
  have IH: "\<And>minEval beta. fst (minLoop child b ms minEval alpha beta) \<noteq> None"
    using Cons.IH Cons.prems by simp
  show ?case
    using orig mp r ev b2 restore IH by (auto simp: Let_def)
qed

lemma evaluatePosition_total:
  assumes "playable b clr"
  shows "fst (evaluatePosition b ai) \<noteq> None"
proof -
  from assms have wf: "wf_board b" and k: "hasKing b White" "hasKing b Black"
    by (simp_all add: playable_def)
  have "isKingInCheck b (opposite ai) \<noteq> None" "isKingInCheck b ai \<noteq> None"
    using isKingInCheck_total[OF wf hasKing_both[OF k]] by blast+
  from evaluatePosition_correct[OF wf this] show ?thesis by simp
qed

lemma minimax_total:
  "playable b (if isMax then ai else opposite ai) \<Longrightarrow>
   fst (minimax b over d alpha beta isMax ai) \<noteq> None"
proof (induction d arbitrary: b alpha beta isMax)
  case 0
  from evaluatePosition_total[OF 0, of ai] show ?case
    by (auto split: prod.splits)
next
  case (Suc d)
  let ?cur = "if isMax then ai else opposite ai"
  note p = Suc.prems
  from p have wf: "wf_board b" and k: "hasKing b White" "hasKing b Black"
    by (simp_all add: playable_def)
  show ?case
  proof (cases over)
    case True
    from evaluatePosition_total[OF p, of ai] True show ?thesis
      by (auto split: prod.splits)
  next
    case False
    have cur: "(if isMax then ai else (if ai = White then Black else White)) = ?cur"
      by (simp add: opposite_def)
    have g: "getAllLegalMoves b ?cur = (Some (legalMoves b ?cur), b)"
      by (rule getAllLegalMoves_correct[OF wf hasKing_both[OF k]])
    have chk: "isKingInCheck b ?cur \<noteq> None"
      by (rule isKingInCheck_total[OF wf hasKing_both[OF k]])
    have inr: "\<forall>m \<in> set (legalMoves b ?cur). moveInRange m" by (rule legalMoves_inRange)
    have child: "\<And>m a be mp. m \<in> set (legalMoves b ?cur) \<Longrightarrow>
        sq b (fromRow m) (fromCol m) = Some mp \<Longrightarrow>
        fst (minimax (tryMove b (fromRow m) (fromCol m) (toRow m) (toCol m) mp) over d a be
               (\<not> isMax) ai) \<noteq> None"
    proof -
      fix m a be mp
      assume m: "m \<in> set (legalMoves b ?cur)" and mp: "sq b (fromRow m) (fromCol m) = Some mp"
      from legalMoves_legal[OF m]
      have r: "inRange (fromRow m)" "inRange (fromCol m)" "inRange (toRow m)" "inRange (toCol m)"
        and l: "legalMove b ?cur (fromRow m) (fromCol m) (toRow m) (toCol m)"
        by (simp_all add: moveInRange_def)
      from playable_after_legal[OF p r l mp]
      have "playable (tryMove b (fromRow m) (fromCol m) (toRow m) (toCol m) mp)
              (if \<not> isMax then ai else opposite ai)"
        by (cases isMax) (simp_all add: opposite_opposite)
      from Suc.IH[OF this]
      show "fst (minimax (tryMove b (fromRow m) (fromCol m) (toRow m) (toCol m) mp) over d a be
               (\<not> isMax) ai) \<noteq> None" .
    qed
    show ?thesis
    proof (cases "legalMoves b ?cur = []")
      case True
      with False g chk show ?thesis by (auto simp: cur Let_def)
    next
      case nonempty: False
      show ?thesis
      proof (cases isMax)
        case True
        have "fst (maxLoop (\<lambda>bb a be. minimax bb over d a be False ai) b (legalMoves b ?cur)
                NegInf alpha beta) \<noteq> None"
          using child True by (intro maxLoop_total[OF minimax_frame wf _ inr]) auto
        with False g nonempty True show ?thesis
          by (simp add: Let_def del: not_None_eq)
      next
        case notmax: False
        have "fst (minLoop (\<lambda>bb a be. minimax bb over d a be True ai) b (legalMoves b ?cur)
                PosInf alpha beta) \<noteq> None"
          using child notmax by (intro minLoop_total[OF minimax_frame wf _ inr]) auto
        with False g nonempty notmax show ?thesis
          by (simp add: opposite_def Let_def del: not_None_eq)
      qed
    qed
  qed
qed

lemma scoreMoves_total:
  assumes p: "playable b ai"
  shows "set ms \<subseteq> set (legalMoves b ai) \<Longrightarrow> fst (scoreMoves b ai ms scored) \<noteq> None"
proof (induction ms arbitrary: scored)
  case Nil
  then show ?case by simp
next
  case (Cons m ms)
  from p have wf: "wf_board b" by (simp add: playable_def)
  from Cons.prems have m: "m \<in> set (legalMoves b ai)" by simp
  from legalMoves_legal[OF m]
  have rng: "inRange (fromRow m)" "inRange (fromCol m)" "inRange (toRow m)" "inRange (toCol m)"
    and l: "legalMove b ai (fromRow m) (fromCol m) (toRow m) (toCol m)"
    by (simp_all add: moveInRange_def)
  obtain orig where orig: "sq b (toRow m) (toCol m) = Some orig"
    using sq_row_Some[OF wf rng(3)] by blast
  obtain mp where mp: "sq b (fromRow m) (fromCol m) = Some mp"
    using sq_row_Some[OF wf rng(1)] by blast
  let ?b1 = "tryMove b (fromRow m) (fromCol m) (toRow m) (toCol m) mp"
  have restore: "undoTry ?b1 (fromRow m) (fromCol m) (toRow m) (toCol m) mp orig = b"
    by (rule undoTry_tryMove[OF wf rng mp orig])
  from playable_after_legal[OF p rng l mp]
  have "wf_board ?b1" "hasKing ?b1 White" "hasKing ?b1 Black" by (simp_all add: playable_def)
  then have "isKingInCheck ?b1 (opposite ai) \<noteq> None"
    using isKingInCheck_total hasKing_both by blast
  then obtain chk where chk: "isKingInCheck ?b1 (if ai = White then Black else White) = Some chk"
    by (auto simp: opposite_def)
  have IH: "\<And>scored. fst (scoreMoves b ai ms scored) \<noteq> None"
    using Cons.IH Cons.prems by simp
  show ?case
    using orig mp chk restore IH by (simp add: Let_def del: not_None_eq)
qed

lemma getHardMove_loop_total:
  assumes p: "playable b ai"
  shows "set ms \<subseteq> set (legalMoves b ai) \<Longrightarrow>
         fst (getHardMove_loop b over ai ms bestMove bestScore) \<noteq> None"
proof (induction ms arbitrary: bestMove bestScore)
  case Nil
  then show ?case by simp
next
  case (Cons m ms)
  from p have wf: "wf_board b" by (simp add: playable_def)
  from Cons.prems have m: "m \<in> set (legalMoves b ai)" by simp
  from legalMoves_legal[OF m]
  have rng: "inRange (fromRow m)" "inRange (fromCol m)" "inRange (toRow m)" "inRange (toCol m)"
    and l: "legalMove b ai (fromRow m) (fromCol m) (toRow m) (toCol m)"
    by (simp_all add: moveInRange_def)
  obtain orig where orig: "sq b (toRow m) (toCol m) = Some orig"
    using sq_row_Some[OF wf rng(3)] by blast
  obtain mp where mp: "sq b (fromRow m) (fromCol m) = Some mp"
    using sq_row_Some[OF wf rng(1)] by blast
  let ?b1 = "tryMove b (fromRow m) (fromCol m) (toRow m) (toCol m) mp"
  have restore: "undoTry ?b1 (fromRow m) (fromCol m) (toRow m) (toCol m) mp orig = b"
    by (rule undoTry_tryMove[OF wf rng mp orig])
  have p1: "playable ?b1 (if False then ai else opposite ai)"
    using playable_after_legal[OF p rng l mp] by simp
  obtain r b2 where r: "minimax ?b1 over 3 NegInf PosInf False ai = (r, b2)"
    by (cases "minimax ?b1 over 3 NegInf PosInf False ai")
  from minimax_total[OF p1, of over 3 NegInf PosInf] r obtain score where score: "r = Some score"
    by auto
  from minimax_frame[OF wf_tryMove[OF wf] r[unfolded score]] have b2: "b2 = ?b1" .
  have IH: "\<And>bestMove bestScore. fst (getHardMove_loop b over ai ms bestMove bestScore) \<noteq> None"
    using Cons.IH Cons.prems by simp
  show ?case
    using orig mp r score b2 restore IH by (simp add: Let_def del: not_None_eq)
qed

lemma getMediumMove_total:
  assumes "playable b clr"
  shows "fst (getMediumMove b clr pickBest randomIndex) \<noteq> None"
proof -
  obtain idx where "legalMoves b clr = [] \<or> idx < length (legalMoves b clr)"
    by (cases "legalMoves b clr") auto
  from assms have wf: "wf_board b" and k: "hasKing b White" "hasKing b Black"
    by (simp_all add: playable_def)
  have g: "getAllLegalMoves b clr = (Some (legalMoves b clr), b)"
    by (rule getAllLegalMoves_correct[OF wf hasKing_both[OF k]])
  obtain s b2 where s: "scoreMoves b clr (legalMoves b clr) [] = (s, b2)"
    by (cases "scoreMoves b clr (legalMoves b clr) []")
  from scoreMoves_total[OF assms, of "legalMoves b clr" "[]"] s
  obtain scored where scored: "s = Some scored" by auto
  from scoreMoves_frame[OF wf legalMoves_inRange s[unfolded scored]]
  have len: "length scored = length (legalMoves b clr)" by simp
  show ?thesis
  proof (cases "legalMoves b clr = []")
    case True
    with g show ?thesis by (simp add: getMediumMove_def)
  next
    case False
    with len have "sort_key (\<lambda>sm. - snd sm) scored \<noteq> []"
      by (metis length_0_conv length_sort)
    with g s scored False show ?thesis
      by (auto simp: getMediumMove_def Let_def split: list.splits)
  qed
qed

text \<open>
  On a playable position the selector raises nothing at any difficulty: it returns
  \<open>null\<close> if the side has no legal move and a move otherwise.
\<close>

lemma getBestMove_playable:
  assumes p: "playable b clr"
    and idx: "legalMoves b clr = [] \<or> randomIndex < length (legalMoves b clr)"
  shows "\<exists>r. fst (getBestMove difficulty b over clr pickBest randomIndex) = Some r \<and>
             (r = None) = (legalMoves b clr = [])"
proof -
  from p have wf: "wf_board b" and k: "hasKing b White" "hasKing b Black"
    by (simp_all add: playable_def)
  have g: "getAllLegalMoves b clr = (Some (legalMoves b clr), b)"
    by (rule getAllLegalMoves_correct[OF wf hasKing_both[OF k]])
  have "fst (getBestMove difficulty b over clr pickBest randomIndex) \<noteq> None"
  proof (cases difficulty)
    case Easy
    with g show ?thesis by (simp add: getBestMove_def getRandomMove_def)
  next
    case Other
    with g show ?thesis by (simp add: getBestMove_def getRandomMove_def)
  next
    case Medium
    with getMediumMove_total[OF p] show ?thesis by (simp add: getBestMove_def del: not_None_eq)
  next
    case Hard
    from getHardMove_loop_total[OF p, of "legalMoves b clr" over None NegInf] Hard g
    show ?thesis by (simp add: getBestMove_def getHardMove_def del: not_None_eq)
  qed
  then obtain r where r: "fst (getBestMove difficulty b over clr pickBest randomIndex) = Some r"
    by blast
  from getBestMove_returns[OF wf r idx] r show ?thesis by blast
qed

section \<open>The claims\<close>

subsection \<open>C10: no piece may stay where it is\<close>

text \<open>
  Claim C10. For every board and every square \<open>s\<close> of it, \<open>isValidMove(s, s)\<close> returns
  false, although the geometric rule of the king alone accepts a displacement of zero:
  an empty origin has no piece to move, and an occupied one makes the destination a
  square held by the mover's own side.
\<close>

theorem isValidMove_null_move:
  assumes "wf_board b" and "inRange r" and "inRange c"
  shows "isValidMove b r c r c = Some False \<and> isValidKingMove r c r c"
proof -
  obtain v where v: "sq b r c = Some v"
    using sq_row_Some[OF assms(1,2)] by blast
  have "isValidMove b r c r c = Some False"
    using v by (cases v) (simp_all add: isValidMove_def)
  moreover have "isValidKingMove r c r c"
    by (simp add: isValidKingMove_def)
  ultimately show ?thesis by simp
qed

theorem isValidMove_null_move_witness:
  "wf_board createBoard \<and> inRange 7 \<and> inRange 4 \<and>
   sq createBoard 7 4 = Some (Some \<lparr>ptype = King, color = White\<rparr>) \<and>
   isValidMove createBoard 7 4 7 4 = Some False \<and> isValidKingMove 7 4 7 4"
proof -
  have h1: "wf_board createBoard" by code_simp
  have h2: "inRange 7" and h3: "inRange 4" by (simp_all add: inRange_def)
  have h4: "sq createBoard 7 4 = Some (Some \<lparr>ptype = King, color = White\<rparr>)" by code_simp
  from isValidMove_null_move[OF h1 h2 h3] h1 h2 h3 h4 show ?thesis by simp
qed

subsection \<open>C2: the initial board\<close>

lemma initial_pairs_table:
  "list_all (\<lambda>(fr, fc). list_all (\<lambda>(tr, tc).
      isValidMove createBoard fr fc tr tc =
        Some ((fr, fc, tr, tc) \<in> set (whiteOpening @ blackOpening))) allSquares) allSquares"
  by code_simp

text \<open>
  Claim C2, as the specification states it, fails: on the board of \<open>createBoard\<close>
  the push of a black pawn is accepted too, and it is none of White's twenty opening
  moves; forty pairs are accepted in all.
\<close>

theorem isValidMove_initial_black_push:
  "isValidMove createBoard 1 0 2 0 = Some True \<and> (1, 0, 2, 0) \<notin> set whiteOpening \<and>
   length whiteOpening = 20 \<and> length (validPairs createBoard) = 40"
  by code_simp

text \<open>
  Claim C2, amended. \<open>isValidMove\<close> does not look at the side to move: over all pairs
  of squares of the initial board it returns true exactly for the twenty opening moves of
  White and the twenty of Black (for each side sixteen pawn pushes and four knight moves),
  and false for every other pair.
\<close>

theorem isValidMove_initial:
  assumes "inRange fr" and "inRange fc" and "inRange tr" and "inRange tc"
  shows "isValidMove createBoard fr fc tr tc =
           Some ((fr, fc, tr, tc) \<in> set whiteOpening \<or> (fr, fc, tr, tc) \<in> set blackOpening)
         \<and> length whiteOpening = 20 \<and> length blackOpening = 20
         \<and> distinct (whiteOpening @ blackOpening)"
proof -
  have "(fr, fc) \<in> set allSquares" and "(tr, tc) \<in> set allSquares"
    using assms by (simp_all add: set_allSquares)
  with initial_pairs_table
  have "isValidMove createBoard fr fc tr tc =
          Some ((fr, fc, tr, tc) \<in> set (whiteOpening @ blackOpening))"
    unfolding list_all_iff by blast
  moreover have "length whiteOpening = 20 \<and> length blackOpening = 20
       \<and> distinct (whiteOpening @ blackOpening)"
    by code_simp
  ultimately show ?thesis by simp
qed

theorem isValidMove_initial_witness:
  "inRange 7 \<and> inRange 1 \<and> inRange 5 \<and> inRange 2 \<and>
   isValidMove createBoard 7 1 5 2 = Some True \<and> isValidMove createBoard 7 1 5 1 = Some False"
proof -
  have h: "inRange 7" "inRange 1" "inRange 5" "inRange 2" by (simp_all add: inRange_def)
  have m: "(7, 1, 5, 2) \<in> set whiteOpening" by code_simp
  have n: "(7, 1, 5, 1) \<notin> set whiteOpening" "(7, 1, 5, 1) \<notin> set blackOpening" by code_simp+
  from isValidMove_initial[OF h(1) h(2) h(3) h(4)] isValidMove_initial[OF h(1) h(2) h(3) h(2)]
    h m n show ?thesis by simp
qed

subsection \<open>C3: the queries that try moves leave the board as they found it\<close>

text \<open>
  What the code does for the operations that use the tentative apply and undo pattern
  (the enumeration of legal moves \<open>getAllLegalMoves\<close>, the checkmate detection
  \<open>isCheckmate\<close>, the scoring of the medium tier inside \<open>getMediumMove\<close>, and the
  search \<open>minimax\<close>): whenever one of them returns, the board is equal, square for
  square, to the board on entry. The enumeration and the checkmate detection do return on
  every board on which the side has a king, the medium tier and the search on every
  playable position.
\<close>

lemma tentative_moves_reverted:
  assumes "wf_board b"
  shows "(fst (getAllLegalMoves b clr) \<noteq> None \<longrightarrow> snd (getAllLegalMoves b clr) = b) \<and>
         (fst (isCheckmate b clr) \<noteq> None \<longrightarrow> snd (isCheckmate b clr) = b) \<and>
         (fst (getMediumMove b clr pickBest randomIndex) \<noteq> None \<longrightarrow>
            snd (getMediumMove b clr pickBest randomIndex) = b) \<and>
         (fst (minimax b over depth alpha beta isMaximizing clr) \<noteq> None \<longrightarrow>
            snd (minimax b over depth alpha beta isMaximizing clr) = b) \<and>
         (hasKing b clr \<longrightarrow>
            fst (getAllLegalMoves b clr) \<noteq> None \<and> fst (isCheckmate b clr) \<noteq> None) \<and>
         (playable b clr \<longrightarrow> fst (getMediumMove b clr pickBest randomIndex) \<noteq> None) \<and>
         (playable b (if isMaximizing then clr else opposite clr) \<longrightarrow>
            fst (minimax b over depth alpha beta isMaximizing clr) \<noteq> None)"
proof (intro conjI impI)
  assume "fst (getAllLegalMoves b clr) \<noteq> None"
  then obtain ms b' where "getAllLegalMoves b clr = (Some ms, b')"
    by (cases "getAllLegalMoves b clr") auto
  with getAllLegalMoves_partial[OF assms this] show "snd (getAllLegalMoves b clr) = b" by simp
next
  assume "fst (isCheckmate b clr) \<noteq> None"
  then obtain v b' where "isCheckmate b clr = (Some v, b')"
    by (cases "isCheckmate b clr") auto
  with isCheckmate_partial[OF assms this] show "snd (isCheckmate b clr) = b" by simp
next
  assume "fst (getMediumMove b clr pickBest randomIndex) \<noteq> None"
  then obtain mv b' where "getMediumMove b clr pickBest randomIndex = (Some mv, b')"
    by (cases "getMediumMove b clr pickBest randomIndex") auto
  with getMediumMove_frame[OF assms this]
  show "snd (getMediumMove b clr pickBest randomIndex) = b" by simp
next
  assume "fst (minimax b over depth alpha beta isMaximizing clr) \<noteq> None"
  then obtain v b' where "minimax b over depth alpha beta isMaximizing clr = (Some v, b')"
    by (cases "minimax b over depth alpha beta isMaximizing clr") auto
  with minimax_frame[OF assms this]
  show "snd (minimax b over depth alpha beta isMaximizing clr) = b" by simp
next
  assume "hasKing b clr"
  from getAllLegalMoves_correct[OF assms this]
  show "fst (getAllLegalMoves b clr) \<noteq> None" by simp
next
  assume "hasKing b clr"
  from isCheckmate_total[OF assms isKingInCheck_total[OF assms this]]
  show "fst (isCheckmate b clr) \<noteq> None" .
next
  assume "playable b clr"
  then show "fst (getMediumMove b clr pickBest randomIndex) \<noteq> None"
    by (rule getMediumMove_total)
next
  assume "playable b (if isMaximizing then clr else opposite clr)"
  then show "fst (minimax b over depth alpha beta isMaximizing clr) \<noteq> None"
    by (rule minimax_total)
qed

lemma tentative_moves_reverted_example:
  "wf_board rookCheck \<and> hasKing rookCheck White \<and> playable rookCheck White \<and>
   getAllLegalMoves rookCheck White = (Some (legalMoves rookCheck White), rookCheck) \<and>
   length (legalMoves rookCheck White) = 4 \<and>
   isCheckmate rookCheck White = (Some False, rookCheck) \<and>
   getMediumMove rookCheck White True 0 =
     (Some (Some \<lparr>fromRow = 7, fromCol = 4, toRow = 6, toCol = 3\<rparr>), rookCheck) \<and>
   minimax rookCheck False 1 NegInf PosInf True White = (Some (Fin (- 5)), rookCheck)"
proof -
  have wf: "wf_board rookCheck" by code_simp
  have k: "hasKing rookCheck White" "playable rookCheck White" by code_simp+
  have a: "fst (getAllLegalMoves rookCheck White) = Some (legalMoves rookCheck White)"
    and a': "length (legalMoves rookCheck White) = 4" by code_simp+
  have c: "fst (isCheckmate rookCheck White) = Some False" by code_simp
  have m: "fst (getMediumMove rookCheck White True 0) =
             Some (Some \<lparr>fromRow = 7, fromCol = 4, toRow = 6, toCol = 3\<rparr>)" by code_simp
  have s: "fst (minimax rookCheck False 1 NegInf PosInf True White) = Some (Fin (- 5))"
    by code_simp
  from tentative_moves_reverted[OF wf, of White True 0 False 1 NegInf PosInf True] wf k a a' c m s
  show ?thesis by (simp add: prod_eq_iff)
qed

text \<open>
  Claim C3 says that for every board and every side these operations leave the board as
  they found it: the speculative write is always taken back. On the board with the white
  king standing next to the black rook (one king of each colour, not playable, since White
  has left its king attacked) it is not. The medium tier for Black tries the capture of
  the king, and the search for Black at a maximizing node does the same; the check query
  that follows, on a board without a white king, raises between the two writes of the
  trial and the two that would take it back. Neither operation returns, and the board
  keeps the trial: the rook stands on the king's square and the white king is gone.
\<close>

theorem tentative_move_left_on_raise:
  "wf_board kingEnPrise \<and> oneKing kingEnPrise White \<and> oneKing kingEnPrise Black \<and>
   sq kingEnPrise 0 0 = Some (Some \<lparr>ptype = Rook, color = Black\<rparr>) \<and>
   sq kingEnPrise 0 1 = Some (Some \<lparr>ptype = King, color = White\<rparr>) \<and>
   fst (getMediumMove kingEnPrise Black True 0) = None \<and>
   sq (snd (getMediumMove kingEnPrise Black True 0)) 0 0 = Some None \<and>
   sq (snd (getMediumMove kingEnPrise Black True 0)) 0 1
     = Some (Some \<lparr>ptype = Rook, color = Black\<rparr>) \<and>
   snd (getMediumMove kingEnPrise Black True 0) \<noteq> kingEnPrise \<and>
   fst (minimax kingEnPrise False 3 NegInf PosInf True Black) = None \<and>
   sq (snd (minimax kingEnPrise False 3 NegInf PosInf True Black)) 0 1
     = Some (Some \<lparr>ptype = Rook, color = Black\<rparr>) \<and>
   snd (minimax kingEnPrise False 3 NegInf PosInf True Black) \<noteq> kingEnPrise"
  by code_simp

subsection \<open>C4: \<open>isCheckmate\<close>\<close>

text \<open>
  Claim C4. For every board on which exactly one king of each colour stands and every
  side, \<open>isCheckmate(side)\<close> returns false if the side is not in check, and otherwise
  returns true if and only if no pseudo-legal move of any piece of the side, tentatively
  applied, leaves the side's king out of check. (The check query itself answers on such
  a board.)
\<close>

theorem isCheckmate_characterised:
  assumes "wf_board b" and "oneKing b White" and "oneKing b Black"
  shows "isKingInCheck b clr \<noteq> None \<and>
         (isKingInCheck b clr = Some False \<longrightarrow> fst (isCheckmate b clr) = Some False) \<and>
         (isKingInCheck b clr = Some True \<longrightarrow>
            fst (isCheckmate b clr) = Some (\<not> canEscape b clr))"
proof -
  have "hasKing b clr"
    using assms oneKing_hasKing by (cases clr) auto
  then have chk: "isKingInCheck b clr \<noteq> None"
    by (rule isKingInCheck_total[OF assms(1)])
  from isCheckmate_correct[OF assms(1) chk] chk show ?thesis by auto
qed

theorem isCheckmate_characterised_witness:
  "wf_board ladderMate \<and> oneKing ladderMate White \<and> oneKing ladderMate Black \<and>
   isKingInCheck ladderMate White = Some True \<and> \<not> canEscape ladderMate White \<and>
   fst (isCheckmate ladderMate White) = Some True \<and>
   isKingInCheck ladderMate Black = Some False \<and>
   fst (isCheckmate ladderMate Black) = Some False \<and>
   isKingInCheck rookCheck White = Some True \<and> canEscape rookCheck White \<and>
   fst (isCheckmate rookCheck White) = Some False"
proof -
  have l: "wf_board ladderMate" "oneKing ladderMate White" "oneKing ladderMate Black"
    by code_simp+
  have r: "wf_board rookCheck" "oneKing rookCheck White" "oneKing rookCheck Black"
    by code_simp+
  have c1: "isKingInCheck ladderMate White = Some True" by code_simp
  have e1: "\<not> canEscape ladderMate White" by code_simp
  have c2: "isKingInCheck ladderMate Black = Some False" by code_simp
  have c3: "isKingInCheck rookCheck White = Some True" by code_simp
  have e3: "canEscape rookCheck White" by code_simp
  from isCheckmate_characterised[OF l, of White] isCheckmate_characterised[OF l, of Black]
    isCheckmate_characterised[OF r, of White] l c1 e1 c2 c3 e3
  show ?thesis by simp
qed

subsection \<open>C5: \<open>minimax\<close> at a node without legal moves\<close>

text \<open>
  Claim C5. At a node of positive depth with the game not flagged as over, where the
  enumeration finds no legal move for the side to move, \<open>minimax\<close> returns \<open>-1000\<close>
  if that side's king is in check and the node maximizes, \<open>+1000\<close> if it is in check
  and the node minimizes, and \<open>0\<close> if the king is not in check. (On a board where the
  side has a king the enumeration finds no move exactly when the side has no legal move:
  lemma \<open>getAllLegalMoves_empty_iff\<close>.)
\<close>

theorem minimax_no_legal_moves:
  assumes wf: "wf_board b" and depth: "0 < depth" and running: "\<not> over"
    and none: "fst (getAllLegalMoves b (if isMaximizing then aiColor else opposite aiColor))
                 = Some []"
    and chk: "isKingInCheck b (if isMaximizing then aiColor else opposite aiColor) = Some inChk"
  shows "fst (minimax b over depth alpha beta isMaximizing aiColor) =
           Some (Fin (if inChk then (if isMaximizing then - 1000 else 1000) else 0))"
proof -
  obtain d where d: "depth = Suc d" using depth by (cases depth) auto
  let ?cur = "if isMaximizing then aiColor else opposite aiColor"
  obtain b' where g: "getAllLegalMoves b ?cur = (Some [], b')"
    using none by (cases "getAllLegalMoves b ?cur") auto
  from getAllLegalMoves_partial[OF wf g] have "b' = b" by simp
  with g chk running d show ?thesis
    by (auto simp: opposite_def Let_def split: if_splits)
qed

theorem minimax_no_legal_moves_witness:
  "fst (minimax ladderMate False 3 NegInf PosInf True White) = Some (Fin (- 1000)) \<and>
   fst (minimax ladderMate False 3 NegInf PosInf False Black) = Some (Fin 1000) \<and>
   fst (minimax (board (snd (movePiece stalemateGame 1 7 1 2))) False 2 NegInf PosInf True Black)
     = Some (Fin 0)"
proof -
  have wf: "wf_board ladderMate" by code_simp
  have n: "fst (getAllLegalMoves ladderMate White) = Some []" by code_simp
  have c: "isKingInCheck ladderMate White = Some True" by code_simp
  let ?s = "board (snd (movePiece stalemateGame 1 7 1 2))"
  have wf': "wf_board ?s" by code_simp
  have n': "fst (getAllLegalMoves ?s Black) = Some []" by code_simp
  have c': "isKingInCheck ?s Black = Some False" by code_simp
  from minimax_no_legal_moves[of ladderMate 3 False True White True NegInf PosInf]
    minimax_no_legal_moves[of ladderMate 3 False False Black True NegInf PosInf]
    minimax_no_legal_moves[of ?s 2 False True Black False NegInf PosInf]
    wf n c wf' n' c'
  show ?thesis by (simp add: opposite_def)
qed

subsection \<open>C6: the static evaluation\<close>

text \<open>
  Claim C6. For every board and colour of the computer, \<open>evaluatePosition\<close> is the sum
  over all pieces of their values (pawn 1, knight 3, bishop 3, rook 5, queen 9, king 100),
  positive for the computer's pieces and negative for the opponent's, plus 50 if the
  opponent is in check (and 1000 more if the opponent is checkmated), minus 50 if the
  computer's side is in check (and 1000 more if it is checkmated). The hypotheses say
  that the two check queries answer, which they do on a board with both kings.
\<close>

theorem evaluatePosition_formula:
  assumes "wf_board b"
    and "isKingInCheck b (opposite aiColor) \<noteq> None" and "isKingInCheck b aiColor \<noteq> None"
  shows "fst (evaluatePosition b aiColor) =
           Some (material b aiColor
                 + (if inCheck b (opposite aiColor)
                    then 50 + (if checkmated b (opposite aiColor) then 1000 else 0) else 0)
                 - (if inCheck b aiColor
                    then 50 + (if checkmated b aiColor then 1000 else 0) else 0))"
  using evaluatePosition_correct[OF assms] by simp

theorem evaluatePosition_formula_witness:
  "wf_board ladderMate \<and> material ladderMate Black = 10 \<and>
   inCheck ladderMate White \<and> checkmated ladderMate White \<and> \<not> inCheck ladderMate Black \<and>
   fst (evaluatePosition ladderMate Black) = Some 1060 \<and>
   fst (evaluatePosition ladderMate White) = Some (- 1060)"
proof -
  have wf: "wf_board ladderMate" by code_simp
  have w: "isKingInCheck ladderMate White = Some True" by code_simp
  have k: "isKingInCheck ladderMate Black = Some False" by code_simp
  have m: "material ladderMate Black = 10" "material ladderMate White = - 10" by code_simp+
  have e: "\<not> canEscape ladderMate White" by code_simp
  from evaluatePosition_formula[of ladderMate Black] evaluatePosition_formula[of ladderMate White]
    wf w k m e
  show ?thesis by (simp add: opposite_def inCheck_def checkmated_def)
qed

subsection \<open>C1: a move and its undoing\<close>

text \<open>
  Claim C1. For every board, every move of a piece standing on its origin (every legal
  move is one) and the record that \<open>movePiece\<close> appends for it, applying the move and
  then undoing it through that record gives back the prior board exactly, with a captured
  piece back on the destination and a promoted pawn a pawn again, and gives back the side
  to move. Undoing through the record is one turn of the loop of \<open>undoMove\<close>
  (\<open>undoStep\<close>); \<open>undoMove\<close> as a whole does the same whenever it undoes this move
  alone, which is in the mode of two human players, and in the mode against the computer
  (where it undoes two moves) when there was no earlier move.
\<close>

theorem movePiece_undo_round_trip:
  assumes wf: "wf_board (board g)"
    and rng: "inRange fr" "inRange fc" "inRange tr" "inRange tc"
    and frm: "sq (board g) fr fc = Some (Some pc)"
  shows "board (undoStep (snd (movePiece g fr fc tr tc))) = board g \<and>
         currentPlayer (undoStep (snd (movePiece g fr fc tr tc))) = currentPlayer g \<and>
         moveHistory (undoStep (snd (movePiece g fr fc tr tc))) = moveHistory g \<and>
         (gameMode g = Human \<or> moveHistory g = [] \<longrightarrow>
            board (undoMove (snd (movePiece g fr fc tr tc))) = board g \<and>
            currentPlayer (undoMove (snd (movePiece g fr fc tr tc))) = currentPlayer g \<and>
            moveHistory (undoMove (snd (movePiece g fr fc tr tc))) = moveHistory g)"
proof -
  obtain captured where dst: "sq (board g) tr tc = Some captured"
    using sq_row_Some[OF wf rng(3)] by blast
  let ?g' = "afterMove g fr fc tr tc pc captured"
  have g': "snd (movePiece g fr fc tr tc) = ?g'"
    using movePiece_result[OF wf frm dst] by simp
  have step: "undoStep ?g' = g\<lparr>gameOver := gameOver ?g'\<rparr>"
    by (rule undoStep_afterMove[OF wf rng frm dst])
  have hist: "moveHistory ?g' \<noteq> []" and mode: "gameMode ?g' = gameMode g"
    by (simp_all add: afterMove_def Let_def)
  have "gameMode g = Human \<or> moveHistory g = [] \<Longrightarrow>
          undoMove ?g' = g\<lparr>gameOver := False\<rparr>"
    using hist mode step by (cases "gameMode g") (auto simp: undoMove_def numeral_2_eq_2)
  with g' step show ?thesis by auto
qed

theorem movePiece_undo_round_trip_witness:
  "isValidMove (board promotionGame) 1 0 0 1 = Some True \<and>
   sq (board promotionGame) 1 0 = Some (Some \<lparr>ptype = Pawn, color = White\<rparr>) \<and>
   sq (board promotionGame) 0 1 = Some (Some \<lparr>ptype = Rook, color = Black\<rparr>) \<and>
   sq (board (snd (movePiece promotionGame 1 0 0 1))) 0 1
     = Some (Some \<lparr>ptype = Queen, color = White\<rparr>) \<and>
   board (undoStep (snd (movePiece promotionGame 1 0 0 1))) = board promotionGame \<and>
   currentPlayer (undoStep (snd (movePiece promotionGame 1 0 0 1))) = White \<and>
   undoMove (snd (movePiece promotionGame 1 0 0 1)) = promotionGame"
proof -
  have wf: "wf_board (board promotionGame)" by code_simp
  have rng: "inRange 1" "inRange 0" by (simp_all add: inRange_def)
  have frm: "sq (board promotionGame) 1 0 = Some (Some \<lparr>ptype = Pawn, color = White\<rparr>)"
    by code_simp
  have v: "isValidMove (board promotionGame) 1 0 0 1 = Some True" by code_simp
  have t: "sq (board promotionGame) 0 1 = Some (Some \<lparr>ptype = Rook, color = Black\<rparr>)"
    by code_simp
  have q: "sq (board (snd (movePiece promotionGame 1 0 0 1))) 0 1
             = Some (Some \<lparr>ptype = Queen, color = White\<rparr>)" by code_simp
  have m: "gameMode promotionGame = Human" "currentPlayer promotionGame = White"
    "gameOver promotionGame = False"
    by (simp_all add: promotionGame_def)
  have o: "gameOver (undoMove (snd (movePiece promotionGame 1 0 0 1))) = False"
    "gameMode (undoMove (snd (movePiece promotionGame 1 0 0 1))) = Human" by code_simp+
  from movePiece_undo_round_trip[OF wf rng(1) rng(2) rng(2) rng(1) frm] v frm t q m o
  show ?thesis by (simp add: game.equality)
qed

subsection \<open>C9: what \<open>movePiece\<close> writes\<close>

text \<open>
  Claim C9. For every board and every move applied by \<open>movePiece\<close>, every square
  other than the origin and the destination holds after the call what it held before;
  the origin is empty, the destination holds the moved piece (a queen, if the piece is a
  pawn reaching row 0 or row 7), and exactly one record is appended to the history.
\<close>

theorem movePiece_frame:
  assumes wf: "wf_board (board g)"
    and rng: "inRange fr" "inRange fc" "inRange tr" "inRange tc"
    and frm: "sq (board g) fr fc = Some (Some pc)" and dst: "sq (board g) tr tc = Some captured"
  shows "(\<forall>r c. \<not> (r = fr \<and> c = fc) \<and> \<not> (r = tr \<and> c = tc) \<longrightarrow>
            sq (board (snd (movePiece g fr fc tr tc))) r c = sq (board g) r c) \<and>
         sq (board (snd (movePiece g fr fc tr tc))) fr fc = Some None \<and>
         (\<not> (tr = fr \<and> tc = fc) \<longrightarrow>
            sq (board (snd (movePiece g fr fc tr tc))) tr tc =
              Some (Some (if ptype pc = Pawn \<and> (tr = 0 \<or> tr = 7)
                          then pc\<lparr>ptype := Queen\<rparr> else pc))) \<and>
         moveHistory (snd (movePiece g fr fc tr tc)) =
           moveHistory g @ [\<lparr>fromRow = fr, fromCol = fc, toRow = tr, toCol = tc,
                              piece = pc, capturedPiece = captured\<rparr>]"
proof -
  have g': "snd (movePiece g fr fc tr tc) = afterMove g fr fc tr tc pc captured"
    using movePiece_result[OF wf frm dst] by simp
  show ?thesis
    unfolding g' using wf rng
    by (auto simp: afterMove_def Let_def sq_put wf_put)
qed

theorem movePiece_frame_witness:
  "sq (board promotionGame) 1 0 = Some (Some \<lparr>ptype = Pawn, color = White\<rparr>) \<and>
   sq (board promotionGame) 0 1 = Some (Some \<lparr>ptype = Rook, color = Black\<rparr>) \<and>
   sq (board (snd (movePiece promotionGame 1 0 0 1))) 0 7 = sq (board promotionGame) 0 7 \<and>
   sq (board (snd (movePiece promotionGame 1 0 0 1))) 1 0 = Some None \<and>
   sq (board (snd (movePiece promotionGame 1 0 0 1))) 0 1
     = Some (Some \<lparr>ptype = Queen, color = White\<rparr>) \<and>
   length (moveHistory (snd (movePiece promotionGame 1 0 0 1))) = 2"
proof -
  have wf: "wf_board (board promotionGame)" by code_simp
  have rng: "inRange 1" "inRange 0" by (simp_all add: inRange_def)
  have frm: "sq (board promotionGame) 1 0 = Some (Some \<lparr>ptype = Pawn, color = White\<rparr>)"
    by code_simp
  have t: "sq (board promotionGame) 0 1 = Some (Some \<lparr>ptype = Rook, color = Black\<rparr>)"
    by code_simp
  have h: "length (moveHistory promotionGame) = 1" by (simp add: promotionGame_def)
  from movePiece_frame[OF wf rng(1) rng(2) rng(2) rng(1) frm t] frm t h
  show ?thesis by simp
qed

subsection \<open>C8: the flag \<open>gameOver\<close> after a move\<close>

lemma movePiece_gameOver:
  assumes "wf_board (board g)"
    and "sq (board g) fr fc = Some (Some pc)" and "sq (board g) tr tc = Some captured"
  shows "gameOver (snd (movePiece g fr fc tr tc)) =
           (checkmated (board (snd (movePiece g fr fc tr tc)))
              (currentPlayer (snd (movePiece g fr fc tr tc))) \<or> gameOver g)"
  using movePiece_result[OF assms] by (simp add: afterMove_def Let_def)

text \<open>
  Claim C8 says that after every \<open>movePiece\<close> the game is flagged as over exactly when
  the new side to move is checkmated or stalemated. \<open>movePiece\<close> raises the flag for
  checkmate only (lemma \<open>movePiece_gameOver\<close>). Here the white queen's move leaves
  Black, to move, not in check and without a legal move, and the flag stays down.
\<close>

theorem movePiece_stalemate_not_flagged:
  "isValidMove (board stalemateGame) 1 7 1 2 = Some True \<and>
   fst (movePiece stalemateGame 1 7 1 2) = Some () \<and>
   currentPlayer (snd (movePiece stalemateGame 1 7 1 2)) = Black \<and>
   isKingInCheck (board (snd (movePiece stalemateGame 1 7 1 2))) Black = Some False \<and>
   legalMoves (board (snd (movePiece stalemateGame 1 7 1 2))) Black = [] \<and>
   gameOver (snd (movePiece stalemateGame 1 7 1 2)) = False"
  by code_simp

subsection \<open>C7: the move selector\<close>

text \<open>
  Claim C7 says that \<open>getBestMove\<close> returns \<open>null\<close> exactly when the side has no legal
  move and otherwise returns a move, never raising. With the white king left next to the
  black rook, Black has eleven legal moves and the first takes the king. The random tier
  returns it. The medium tier tries it and asks whether White is in check on a board
  without a white king, and the hard tier asks the same inside \<open>minimax\<close>: the king's
  position is still \<open>(-1, -1)\<close>, \<open>isValidMove\<close> indexes the row \<open>board[-1]\<close>, and
  both raise. (On a playable position, where the side that has just moved is not in
  check, no tier raises and the claim holds: lemma \<open>getBestMove_playable\<close>.)
\<close>

theorem getBestMove_raises_on_king_capture:
  "wf_board kingEnPrise \<and> oneKing kingEnPrise White \<and> oneKing kingEnPrise Black \<and>
   hd (legalMoves kingEnPrise Black) = \<lparr>fromRow = 0, fromCol = 0, toRow = 0, toCol = 1\<rparr> \<and>
   length (legalMoves kingEnPrise Black) = 11 \<and>
   fst (getBestMove Easy kingEnPrise False Black True 0)
     = Some (Some \<lparr>fromRow = 0, fromCol = 0, toRow = 0, toCol = 1\<rparr>) \<and>
   fst (getBestMove Medium kingEnPrise False Black True 0) = None \<and>
   fst (getBestMove Medium kingEnPrise False Black False 0) = None \<and>
   fst (getBestMove Hard kingEnPrise False Black True 0) = None"
  by code_simp


end
